theory Spec2Isabelle
  imports Complex_Main "HOL-Library.Monad_Syntax" "HOL-Library.Log_Nat"
begin

section \<open>The data model of \<^verbatim>\<open>mat4.hpp\<close>\<close>

text \<open>
  The element type of the matrix is kept as a type parameter \<open>'a\<close>: the functions below
  use only the operations the source applies to its \<^verbatim>\<open>float\<close> elements (the constants
  \<open>0\<close> and \<open>1\<close>, \<open>+\<close>, \<open>-\<close>, \<open>*\<close>), through the syntactic type classes, and assume no
  algebraic law about them. Every statement proved for all \<open>'a\<close> therefore holds for
  whatever the arithmetic of the element type is, rounding included.
\<close>

datatype INIT = IDENTITY | ONES | ZEROS

record 'a Mat4 =
  "values" :: "'a list"
  nR :: int
  nC :: int

text \<open>
  \<^verbatim>\<open>std::vector::operator[]\<close> does not check its index: an index outside the vector is
  undefined behaviour. The model makes it the value \<open>None\<close>.
\<close>

definition vec_read :: "'a list \<Rightarrow> int \<Rightarrow> 'a option" where
  "vec_read xs k = (if 0 \<le> k \<and> k < int (length xs) then Some (xs ! nat k) else None)"

definition vec_write :: "'a list \<Rightarrow> int \<Rightarrow> 'a \<Rightarrow> 'a list option" where
  "vec_write xs k v = (if 0 \<le> k \<and> k < int (length xs) then Some (xs[nat k := v]) else None)"

definition load :: "'a Mat4 \<Rightarrow> int \<Rightarrow> 'a option" where
  "load m k = vec_read (values m) k"

definition store :: "'a Mat4 \<Rightarrow> int \<Rightarrow> 'a \<Rightarrow> 'a Mat4 option" where
  "store m k v = map_option (\<lambda>vs. m\<lparr>values := vs\<rparr>) (vec_write (values m) k v)"

text \<open>The loop \<^verbatim>\<open>for (int i = lo; i < n; ++i) body\<close>, threading the state through.\<close>

function for_upto :: "int \<Rightarrow> int \<Rightarrow> (int \<Rightarrow> 's \<Rightarrow> 's option) \<Rightarrow> 's \<Rightarrow> 's option" where
  "for_upto i n body s =
     (if i < n then (case body i s of None \<Rightarrow> None | Some s' \<Rightarrow> for_upto (i + 1) n body s')
      else Some s)"
  by pat_completeness auto
termination
  by (relation "measure (\<lambda>(i, n, body, s). nat (n - i))") auto

declare for_upto.simps [simp del]

subsection \<open>Mutators\<close>

definition setZeros :: "'a::zero Mat4 \<Rightarrow> 'a Mat4 option" where
  "setZeros m =
     for_upto 0 (nR m) (\<lambda>i m.
       for_upto 0 (nC m) (\<lambda>j m. store m (i * nC m + j) 0) m) m"

definition setOnes :: "'a::one Mat4 \<Rightarrow> 'a Mat4 option" where
  "setOnes m =
     for_upto 0 (nR m) (\<lambda>i m.
       for_upto 0 (nC m) (\<lambda>j m. store m (i * nC m + j) 1) m) m"

definition setIdentity :: "'a::{zero,one} Mat4 \<Rightarrow> 'a Mat4 option" where
  "setIdentity m =
     for_upto 0 (nR m) (\<lambda>i m.
       for_upto 0 (nC m) (\<lambda>j m. store m (i * nC m + j) (if i = j then 1 else 0)) m) m"

subsection \<open>Constructors\<close>

text \<open>
  Every constructor initialises \<^verbatim>\<open>nR(4), nC(4)\<close> and calls
  \<^verbatim>\<open>values.resize(nR * nC)\<close> on the empty vector, which value-initialises the new
  elements (to zero).
\<close>

definition resized :: "int \<Rightarrow> int \<Rightarrow> 'a::zero Mat4" where
  "resized r c = \<lparr>values = replicate (nat (r * c)) 0, nR = r, nC = c\<rparr>"

fun Mat4_init :: "INIT \<Rightarrow> 'a::{zero,one} Mat4 option" where
  "Mat4_init IDENTITY = setIdentity (resized 4 4)"
| "Mat4_init ONES = setOnes (resized 4 4)"
| "Mat4_init ZEROS = setZeros (resized 4 4)"

definition get :: "'a Mat4 \<Rightarrow> int \<Rightarrow> int \<Rightarrow> 'a option" where
  "get m i j = load m (i * nC m + j)"

definition set_mat :: "'a Mat4 \<Rightarrow> int \<Rightarrow> int \<Rightarrow> 'a \<Rightarrow> 'a Mat4 option" where
  "set_mat m i j k = store m (i * nC m + j) k"

subsection \<open>Operators\<close>

definition transpose_mat :: "'a::{zero,one} Mat4 \<Rightarrow> 'a Mat4 option" where
  "transpose_mat this = do {
     result \<leftarrow> Mat4_init IDENTITY;
     for_upto 0 (nR this) (\<lambda>i result.
       for_upto 0 (nC this) (\<lambda>j result. do {
         v \<leftarrow> load this (i * nC this + j);
         store result (j * nR this + i) v
       }) result) result
   }"

definition mul :: "'a::{zero,one,plus,times} Mat4 \<Rightarrow> 'a Mat4 \<Rightarrow> 'a Mat4 option" where
  "mul this m = do {
     result \<leftarrow> Mat4_init IDENTITY;
     for_upto 0 (nR this) (\<lambda>i result.
       for_upto 0 (nC m) (\<lambda>j result. do {
         elementSum \<leftarrow> for_upto 0 (nC this) (\<lambda>k elementSum. do {
           a \<leftarrow> load this (i * nC this + k);
           b \<leftarrow> load m (k * nC m + j);
           Some (elementSum + a * b)
         }) 0;
         store result (i * nC m + j) elementSum
       }) result) result
   }"

definition add :: "'a::{zero,one,plus} Mat4 \<Rightarrow> 'a Mat4 \<Rightarrow> 'a Mat4 option" where
  "add this m = do {
     result \<leftarrow> Mat4_init IDENTITY;
     for_upto 0 (nR this) (\<lambda>i result.
       for_upto 0 (nC this) (\<lambda>j result. do {
         a \<leftarrow> load this (i * nC this + j);
         b \<leftarrow> load m (i * nC this + j);
         store result (i * nC this + j) (a + b)
       }) result) result
   }"

definition sub :: "'a::{zero,one,minus} Mat4 \<Rightarrow> 'a Mat4 \<Rightarrow> 'a Mat4 option" where
  "sub this m = do {
     result \<leftarrow> Mat4_init IDENTITY;
     for_upto 0 (nR this) (\<lambda>i result.
       for_upto 0 (nC this) (\<lambda>j result. do {
         a \<leftarrow> load this (i * nC this + j);
         b \<leftarrow> load m (i * nC this + j);
         store result (i * nC this + j) (a - b)
       }) result) result
   }"

definition mul_scalar :: "'a::{zero,one,times} Mat4 \<Rightarrow> 'a \<Rightarrow> 'a Mat4 option" where
  "mul_scalar this value = do {
     result \<leftarrow> Mat4_init IDENTITY;
     for_upto 0 (nR this) (\<lambda>i result.
       for_upto 0 (nC this) (\<lambda>j result. do {
         a \<leftarrow> load this (i * nC this + j);
         store result (i * nC this + j) (a * value)
       }) result) result
   }"

definition hadamard :: "'a::{zero,one,times} Mat4 \<Rightarrow> 'a Mat4 \<Rightarrow> 'a Mat4 option" where
  "hadamard this m = do {
     result \<leftarrow> Mat4_init IDENTITY;
     for_upto 0 (nR this) (\<lambda>i result.
       for_upto 0 (nC this) (\<lambda>j result. do {
         a \<leftarrow> load this (i * nC this + j);
         b \<leftarrow> load m (i * nC this + j);
         store result (i * nC this + j) (a * b)
       }) result) result
   }"

text \<open>
  \<^verbatim>\<open>dumpColumnWise(float *array)\<close> writes through a raw pointer. The caller's buffer is
  a list here, and a write outside it (undefined behaviour in the source) is \<open>None\<close>.
\<close>

definition dumpColumnWise :: "'a Mat4 \<Rightarrow> 'a list \<Rightarrow> 'a list option" where
  "dumpColumnWise this array =
     for_upto 0 (nR this) (\<lambda>i array.
       for_upto 0 (nC this) (\<lambda>j array. do {
         v \<leftarrow> load this (i * nC this + j);
         vec_write array (i + j * nR this) v
       }) array) array"

subsection \<open>The vector types\<close>

text \<open>
  Modelled from the spec: the vector types \<^verbatim>\<open>Vec3\<close> (of \<^verbatim>\<open>vec3.hpp\<close>) and \<^verbatim>\<open>Vec3f\<close>
  (of \<^verbatim>\<open>trimesh.hpp\<close>) are not among the sources. The spec requires of them only that
  each "exposes three orderable numeric components accessible by name or index and is
  constructible from three numeric values". \<^verbatim>\<open>Vec3\<close> is used by name
  (\<^verbatim>\<open>translation.x\<close>), \<^verbatim>\<open>Vec3f\<close> by index (\<^verbatim>\<open>v[0]\<close>); an index other than 0, 1, 2
  is \<open>None\<close>.
\<close>

datatype 'a Vec3 = Vec3 (x_of: 'a) (y_of: 'a) (z_of: 'a)

datatype 'a Vec3f = Vec3f 'a 'a 'a

fun Vec3f_at :: "'a Vec3f \<Rightarrow> int \<Rightarrow> 'a option" where
  "Vec3f_at (Vec3f a b c) k =
     (if k = 0 then Some a else if k = 1 then Some b else if k = 2 then Some c else None)"

definition mul_vec :: "'a::{plus,times} Mat4 \<Rightarrow> 'a Vec3f \<Rightarrow> 'a Vec3f option" where
  "mul_vec this v = do {
     m0 \<leftarrow> load this 0; m1 \<leftarrow> load this 1; m2 \<leftarrow> load this 2;
     m4 \<leftarrow> load this 4; m5 \<leftarrow> load this 5; m6 \<leftarrow> load this 6;
     m8 \<leftarrow> load this 8; m9 \<leftarrow> load this 9; m10 \<leftarrow> load this 10;
     v0 \<leftarrow> Vec3f_at v 0; v1 \<leftarrow> Vec3f_at v 1; v2 \<leftarrow> Vec3f_at v 2;
     Some (Vec3f (m0 * v0 + m1 * v1 + m2 * v2)
                 (m4 * v0 + m5 * v1 + m6 * v2)
                 (m8 * v0 + m9 * v1 + m10 * v2))
   }"

definition getTranslationVec3 :: "'a Mat4 \<Rightarrow> 'a Vec3 option" where
  "getTranslationVec3 this = do {
     a \<leftarrow> load this 3; b \<leftarrow> load this 7; c \<leftarrow> load this 11;
     Some (Vec3 a b c)
   }"

subsection \<open>The other constructors\<close>

definition Mat4_translation :: "'a::{zero,one} Vec3 \<Rightarrow> 'a Mat4 option" where
  "Mat4_translation translation = do {
     m \<leftarrow> setIdentity (resized 4 4);
     m \<leftarrow> store m 3 (x_of translation);
     m \<leftarrow> store m 7 (y_of translation);
     store m 11 (z_of translation)
   }"

definition Mat4_scale :: "'a::{zero,one} \<Rightarrow> 'a \<Rightarrow> 'a \<Rightarrow> 'a Mat4 option" where
  "Mat4_scale scaleX scaleY scaleZ = do {
     m \<leftarrow> setIdentity (resized 4 4);
     m \<leftarrow> store m 0 scaleX;
     m \<leftarrow> store m 5 scaleY;
     store m 10 scaleZ
   }"

text \<open>The copy constructor takes its dimensions from the argument; the assignment
  operator keeps those of the assigned object.\<close>

definition assign :: "'a Mat4 \<Rightarrow> 'a Mat4 \<Rightarrow> 'a Mat4 option" where
  "assign this m =
     for_upto 0 (nR this) (\<lambda>i this.
       for_upto 0 (nC this) (\<lambda>j this. do {
         v \<leftarrow> load m (i * nC this + j);
         store this (i * nC this + j) v
       }) this) this"

definition Mat4_copy :: "'a::zero Mat4 \<Rightarrow> 'a Mat4 option" where
  "Mat4_copy m = assign (resized (nR m) (nC m)) m"

section \<open>The arithmetic of \<^verbatim>\<open>float\<close> and \<^verbatim>\<open>double\<close>\<close>

text \<open>
  Where a property depends on the arithmetic, \<^verbatim>\<open>float\<close> is IEEE 754 binary32 and
  \<^verbatim>\<open>double\<close> is binary64, with rounding to nearest, ties to even. A value is not a
  number, an infinity with its sign (\<open>True\<close> for negative), or a finite value given by its
  sign and its magnitude, a rational number; the two zeros are \<open>Fin False 0\<close> and
  \<open>Fin True 0\<close>. A format is its precision in bits, the exponent of its least positive
  value and the exponent of the least power of two it cannot hold.
\<close>

datatype fp = NaN | Infty bool | Fin bool rat

record format =
  precision :: nat
  emin :: int
  emax :: int

definition binary32 :: format where
  "binary32 = \<lparr>precision = 24, emin = - 149, emax = 128\<rparr>"

definition binary64 :: format where
  "binary64 = \<lparr>precision = 53, emin = - 1074, emax = 1024\<rparr>"

text \<open>\<open>ilog2 q\<close> is the integer \<open>k\<close> with \<open>2^k \<le> q < 2^(k+1)\<close>, for \<open>q > 0\<close>.\<close>

definition ilog2 :: "rat \<Rightarrow> int" where
  "ilog2 q = (case quotient_of q of (a, b) \<Rightarrow>
     let k = bitlen a - bitlen b in if 2 powi k \<le> q then k else k - 1)"

definition round_half_even :: "rat \<Rightarrow> int" where
  "round_half_even x =
     (let f = \<lfloor>x\<rfloor>; d = x - of_int f
      in if d < 1 / 2 then f else if 1 / 2 < d then f + 1 else if even f then f else f + 1)"

text \<open>
  Rounding a magnitude: the spacing of the format around \<open>q\<close> is \<open>2^e\<close>, and \<open>q\<close> goes to
  the nearest multiple of it. A result of \<open>2^emax\<close> or more overflows to infinity.
\<close>

definition round_mag :: "format \<Rightarrow> rat \<Rightarrow> rat" where
  "round_mag fmt q =
     (if q = 0 then 0
      else let e = max (emin fmt) (ilog2 q - (int (precision fmt) - 1))
           in of_int (round_half_even (q / 2 powi e)) * 2 powi e)"

definition round_to :: "format \<Rightarrow> bool \<Rightarrow> rat \<Rightarrow> fp" where
  "round_to fmt s q = (let r = round_mag fmt q in if 2 powi emax fmt \<le> r then Infty s else Fin s r)"

definition round_signed :: "format \<Rightarrow> bool \<Rightarrow> rat \<Rightarrow> fp" where
  "round_signed fmt zs x =
     (if x = 0 then Fin zs 0 else if x < 0 then round_to fmt True (- x) else round_to fmt False x)"

definition signed :: "bool \<Rightarrow> rat \<Rightarrow> rat" where
  "signed s q = (if s then - q else q)"

fun fp_add :: "format \<Rightarrow> fp \<Rightarrow> fp \<Rightarrow> fp" where
  "fp_add fmt NaN y = NaN"
| "fp_add fmt x NaN = NaN"
| "fp_add fmt (Infty s) (Infty t) = (if s = t then Infty s else NaN)"
| "fp_add fmt (Infty s) (Fin t b) = Infty s"
| "fp_add fmt (Fin s a) (Infty t) = Infty t"
| "fp_add fmt (Fin s a) (Fin t b) = round_signed fmt (s \<and> t) (signed s a + signed t b)"

fun fp_neg :: "fp \<Rightarrow> fp" where
  "fp_neg NaN = NaN"
| "fp_neg (Infty s) = Infty (\<not> s)"
| "fp_neg (Fin s a) = Fin (\<not> s) a"

definition fp_sub :: "format \<Rightarrow> fp \<Rightarrow> fp \<Rightarrow> fp" where
  "fp_sub fmt x y = fp_add fmt x (fp_neg y)"

fun fp_mul :: "format \<Rightarrow> fp \<Rightarrow> fp \<Rightarrow> fp" where
  "fp_mul fmt NaN y = NaN"
| "fp_mul fmt x NaN = NaN"
| "fp_mul fmt (Infty s) (Infty t) = Infty (s \<noteq> t)"
| "fp_mul fmt (Infty s) (Fin t b) = (if b = 0 then NaN else Infty (s \<noteq> t))"
| "fp_mul fmt (Fin s a) (Infty t) = (if a = 0 then NaN else Infty (s \<noteq> t))"
| "fp_mul fmt (Fin s a) (Fin t b) = round_to fmt (s \<noteq> t) (a * b)"

fun fp_div :: "format \<Rightarrow> fp \<Rightarrow> fp \<Rightarrow> fp" where
  "fp_div fmt NaN y = NaN"
| "fp_div fmt x NaN = NaN"
| "fp_div fmt (Infty s) (Infty t) = NaN"
| "fp_div fmt (Infty s) (Fin t b) = Infty (s \<noteq> t)"
| "fp_div fmt (Fin s a) (Infty t) = Fin (s \<noteq> t) 0"
| "fp_div fmt (Fin s a) (Fin t b) =
     (if b = 0 then (if a = 0 then NaN else Infty (s \<noteq> t)) else round_to fmt (s \<noteq> t) (a / b))"

text \<open>The comparisons \<^verbatim>\<open>==\<close>, \<^verbatim>\<open><=\<close> and \<^verbatim>\<open><\<close>: false on NaN, and the two zeros are equal.\<close>

fun fp_eq :: "fp \<Rightarrow> fp \<Rightarrow> bool" where
  "fp_eq (Fin s a) (Fin t b) = (signed s a = signed t b)"
| "fp_eq (Infty s) (Infty t) = (s = t)"
| "fp_eq x y = False"

fun fp_le :: "fp \<Rightarrow> fp \<Rightarrow> bool" where
  "fp_le NaN y = False"
| "fp_le x NaN = False"
| "fp_le (Infty s) (Infty t) = (s \<or> \<not> t)"
| "fp_le (Infty s) (Fin t b) = s"
| "fp_le (Fin s a) (Infty t) = (\<not> t)"
| "fp_le (Fin s a) (Fin t b) = (signed s a \<le> signed t b)"

definition fp_lt :: "fp \<Rightarrow> fp \<Rightarrow> bool" where
  "fp_lt x y \<longleftrightarrow> fp_le x y \<and> \<not> fp_eq x y"

text \<open>Conversion of an \<^verbatim>\<open>int\<close>, and of a \<^verbatim>\<open>double\<close> to \<^verbatim>\<open>float\<close>. Every \<^verbatim>\<open>float\<close> is
  a \<^verbatim>\<open>double\<close> of the same value, so the conversion of a \<^verbatim>\<open>float\<close> to \<^verbatim>\<open>double\<close>
  changes nothing.\<close>

definition fp_of_int :: "format \<Rightarrow> int \<Rightarrow> fp" where
  "fp_of_int fmt n = round_signed fmt False (of_int n)"

fun to_float :: "fp \<Rightarrow> fp" where
  "to_float (Fin s q) = round_to binary32 s q"
| "to_float x = x"

definition to_double :: "fp \<Rightarrow> fp" where
  "to_double x = x"

text \<open>The values of the type \<^verbatim>\<open>float\<close>, and the finite ones among them.\<close>

fun is_float :: "fp \<Rightarrow> bool" where
  "is_float (Fin s q) \<longleftrightarrow> 0 \<le> q \<and> round_to binary32 s q = Fin s q"
| "is_float x \<longleftrightarrow> True"

fun is_finite :: "fp \<Rightarrow> bool" where
  "is_finite (Fin s q) \<longleftrightarrow> True"
| "is_finite x \<longleftrightarrow> False"

text \<open>The elements of a \<^verbatim>\<open>float\<close> matrix are added, subtracted and multiplied in
  binary32.\<close>

instantiation fp :: "{zero, one, plus, minus, times}"
begin

definition zero_fp :: fp where "zero_fp = Fin False 0"
definition one_fp :: fp where "one_fp = Fin False 1"
definition plus_fp :: "fp \<Rightarrow> fp \<Rightarrow> fp" where "plus_fp x y = fp_add binary32 x y"
definition minus_fp :: "fp \<Rightarrow> fp \<Rightarrow> fp" where "minus_fp x y = fp_sub binary32 x y"
definition times_fp :: "fp \<Rightarrow> fp \<Rightarrow> fp" where "times_fp x y = fp_mul binary32 x y"

instance ..

end

subsection \<open>The rotation constructor\<close>

text \<open>
  \<^verbatim>\<open>cos(angleInDegrees / 180 * M_PI)\<close>: the division is done in \<^verbatim>\<open>float\<close> (the \<^verbatim>\<open>int\<close>
  180 is converted), the product with the \<^verbatim>\<open>double\<close> constant \<^verbatim>\<open>M_PI\<close> in \<^verbatim>\<open>double\<close>;
  \<^verbatim>\<open>cos\<close> and \<^verbatim>\<open>sin\<close> take and return a \<^verbatim>\<open>double\<close>, and the assignment to the
  element converts to \<^verbatim>\<open>float\<close>. The two functions of the C library are parameters.
  \<^verbatim>\<open>M_PI\<close> is the \<^verbatim>\<open>double\<close> nearest to the literal the header defines.
\<close>

definition M_PI :: fp where
  "M_PI = round_to binary64 False (31415926535897932384626433832795 / 10 ^ 31)"

definition radians :: "fp \<Rightarrow> fp" where
  "radians angleInDegrees =
     fp_mul binary64 (to_double (fp_div binary32 angleInDegrees (fp_of_int binary32 180))) M_PI"

definition Mat4_rotation :: "(fp \<Rightarrow> fp) \<Rightarrow> (fp \<Rightarrow> fp) \<Rightarrow> fp \<Rightarrow> fp Mat4 option" where
  "Mat4_rotation cos_d sin_d angleInDegrees = do {
     m \<leftarrow> setIdentity (resized 4 4);
     m \<leftarrow> store m 0 (to_float (cos_d (radians angleInDegrees)));
     m \<leftarrow> store m 1 (to_float (fp_neg (sin_d (radians angleInDegrees))));
     m \<leftarrow> store m 4 (to_float (sin_d (radians angleInDegrees)));
     store m 5 (to_float (cos_d (radians angleInDegrees)))
   }"

subsection \<open>The uniform fill\<close>

text \<open>
  \<^verbatim>\<open>rand()\<close> reads and advances the generator of the process. Its state is the sequence
  of the numbers it is still to return. \<^verbatim>\<open>RAND_MAX\<close>, a macro of the C library, is a
  parameter.
\<close>

type_synonym rand_state = "nat \<Rightarrow> int"

definition rand :: "rand_state \<Rightarrow> int \<times> rand_state" where
  "rand g = (g 0, \<lambda>n. g (Suc n))"

definition unit_random :: "int \<Rightarrow> int \<Rightarrow> fp" where
  "unit_random RAND_MAX r = fp_div binary32 (fp_of_int binary32 r) (fp_of_int binary32 RAND_MAX)"

definition setUniform ::
  "int \<Rightarrow> fp \<Rightarrow> fp \<Rightarrow> fp Mat4 \<times> rand_state \<Rightarrow> (fp Mat4 \<times> rand_state) option" where
  "setUniform RAND_MAX low high st =
     for_upto 0 (nR (fst st)) (\<lambda>i st.
       for_upto 0 (nC (fst st)) (\<lambda>j (m, g).
         let (r, g') = rand g;
             randomNumber = unit_random RAND_MAX r;
             randomNumber = low + randomNumber * (high - low)
         in map_option (\<lambda>m'. (m', g')) (store m (i * nC m + j) randomNumber)) st) st"

text \<open>The generator that returns \<open>r\<close> at every call.\<close>

definition constant_rand :: "int \<Rightarrow> rand_state" where
  "constant_rand r = (\<lambda>n. r)"

section \<open>Well-formed matrices\<close>

text \<open>A matrix is well formed when it is one a constructor can have built: 16 elements,
  4 rows, 4 columns. \<open>elem m i j\<close> names the element at row \<open>i\<close>, column \<open>j\<close>.\<close>

definition Mat4_inv :: "'a Mat4 \<Rightarrow> bool" where
  "Mat4_inv m \<longleftrightarrow> length (values m) = 16 \<and> nR m = 4 \<and> nC m = 4"

definition elem :: "'a Mat4 \<Rightarrow> int \<Rightarrow> int \<Rightarrow> 'a" where
  "elem m i j = values m ! nat (i * 4 + j)"

text \<open>For the proofs about \<^verbatim>\<open>float\<close> matrices: a zero of either sign; a finite value of
  the type \<^verbatim>\<open>float\<close>.\<close>

definition is_zero :: "fp \<Rightarrow> bool" where
  "is_zero x \<longleftrightarrow> x = Fin False 0 \<or> x = Fin True 0"

definition fin_float :: "fp \<Rightarrow> bool" where
  "fin_float x \<longleftrightarrow> is_float x \<and> is_finite x"

text \<open>The number a finite value stands for, and a value with the negative zero replaced
  by the positive one.\<close>

fun fp_val :: "fp \<Rightarrow> rat" where
  "fp_val (Fin s q) = signed s q"
| "fp_val x = 0"

definition pos_zero :: "fp \<Rightarrow> fp" where
  "pos_zero x = (if x = Fin True 0 then Fin False 0 else x)"

section \<open>Proofs\<close>

lemma for_upto_4:
  "for_upto 0 4 body s = body 0 s \<bind> body 1 \<bind> body 2 \<bind> body 3"
  by (simp add: for_upto.simps [of _ 4] split: option.splits)

lemma length_16_cases:
  assumes "length xs = 16"
  obtains a0 a1 a2 a3 a4 a5 a6 a7 a8 a9 a10 a11 a12 a13 a14 a15 where
    "xs = [a0, a1, a2, a3, a4, a5, a6, a7, a8, a9, a10, a11, a12, a13, a14, a15]"
  using assms by (auto simp: numeral_eq_Suc length_Suc_conv)

lemma Mat4_inv_cases:
  assumes "Mat4_inv (m :: 'a Mat4)"
  obtains a0 a1 a2 a3 a4 a5 a6 a7 a8 a9 a10 a11 a12 a13 a14 a15 where
    "m = \<lparr>values = [a0, a1, a2, a3, a4, a5, a6, a7, a8, a9, a10, a11, a12, a13, a14, a15],
          nR = 4, nC = 4\<rparr>"
proof -
  from assms have len: "length (values m) = 16" and dims: "nR m = 4" "nC m = 4"
    by (simp_all add: Mat4_inv_def)
  from len obtain a0 a1 a2 a3 a4 a5 a6 a7 a8 a9 a10 a11 a12 a13 a14 a15 where
    "values m = [a0, a1, a2, a3, a4, a5, a6, a7, a8, a9, a10, a11, a12, a13, a14, a15]"
    by (rule length_16_cases)
  with dims show thesis
    using that by (cases m) simp
qed

lemma setIdentity_resized:
  "setIdentity (resized 4 4 :: 'a::{zero,one} Mat4) =
     Some \<lparr>values = [1, 0, 0, 0, 0, 1, 0, 0, 0, 0, 1, 0, 0, 0, 0, 1], nR = 4, nC = 4\<rparr>"
  by (simp add: setIdentity_def resized_def for_upto_4 store_def vec_write_def numeral_eq_Suc)

lemma in_range_4: "0 \<le> (i::int) \<Longrightarrow> i < 4 \<Longrightarrow> i = 0 \<or> i = 1 \<or> i = 2 \<or> i = 3"
  by linarith

lemma get_elem:
  assumes "Mat4_inv m" "0 \<le> i" "i < 4" "0 \<le> j" "j < 4"
  shows "get m i j = Some (elem m i j)"
  using assms by (simp add: get_def load_def vec_read_def elem_def Mat4_inv_def)

lemma index_inj:
  fixes i j i' j' :: int
  assumes "0 \<le> j" "j < 4" "0 \<le> j'" "j' < 4" "i * 4 + j = i' * 4 + j'"
  shows "i = i' \<and> j = j'"
  using assms by presburger

subsection \<open>Element access\<close>

text \<open>
  C10. For a well-formed matrix and indices \<open>i\<close>, \<open>j\<close> in \<open>[0,4)\<close>, \<open>set(i, j, v)\<close>
  succeeds; afterwards \<open>get(i, j)\<close> returns \<open>v\<close> and \<open>get(i', j')\<close> returns what it
  returned before at every other in-range position: exactly one element changes.
\<close>

theorem set_then_get:
  assumes "Mat4_inv m" "0 \<le> i" "i < 4" "0 \<le> j" "j < 4"
  shows "\<exists>m'. set_mat m i j v = Some m' \<and> Mat4_inv m' \<and> get m' i j = Some v \<and>
           (\<forall>i' j'. 0 \<le> i' \<and> i' < 4 \<and> 0 \<le> j' \<and> j' < 4 \<and> (i', j') \<noteq> (i, j)
              \<longrightarrow> get m' i' j' = get m i' j')"
proof -
  let ?k = "i * 4 + j"
  from assms have len: "length (values m) = 16" and c: "nC m = 4"
    by (simp_all add: Mat4_inv_def)
  from assms have k: "0 \<le> ?k" "?k < 16" by linarith+
  define m' where "m' = m\<lparr>values := (values m)[nat ?k := v]\<rparr>"
  have s: "set_mat m i j v = Some m'"
    using k len c by (simp add: set_mat_def store_def vec_write_def m'_def)
  have inv: "Mat4_inv m'"
    using assms(1) by (simp add: Mat4_inv_def m'_def)
  have same: "get m' i j = Some v"
    using k len c by (simp add: get_def load_def vec_read_def m'_def)
  have other: "get m' i' j' = get m i' j'"
    if "0 \<le> i'" "i' < 4" "0 \<le> j'" "j' < 4" "(i', j') \<noteq> (i, j)" for i' j'
  proof -
    have "i' * 4 + j' \<noteq> ?k"
      using index_inj [of j' j i' i] that assms by auto
    moreover have "0 \<le> i' * 4 + j'" using that by linarith
    ultimately have "nat ?k \<noteq> nat (i' * 4 + j')" using k by linarith
    then show ?thesis
      by (simp add: get_def load_def vec_read_def m'_def c)
  qed
  from s inv same other show ?thesis by blast
qed

theorem set_then_get_witness:
  "\<exists>m'. set_mat \<lparr>values = [1, 2, 3, 4, 5, 6, 7, 8, 9, 10, 11, 12, 13, 14, 15, 16 :: int], nR = 4, nC = 4\<rparr> 1 2 42
           = Some m' \<and> get m' 1 2 = Some 42 \<and> get m' 2 1 = Some 10"
proof -
  let ?m = "\<lparr>values = [1, 2, 3, 4, 5, 6, 7, 8, 9, 10, 11, 12, 13, 14, 15, 16 :: int], nR = 4, nC = 4\<rparr>"
  have inv: "Mat4_inv ?m" by (simp add: Mat4_inv_def)
  have old: "get ?m 2 1 = Some 10" by (simp add: get_def load_def vec_read_def)
  from set_then_get [OF inv, of 1 2 42] obtain m' where
    "set_mat ?m 1 2 42 = Some m'" "get m' 1 2 = Some 42"
    "\<forall>i' j'. 0 \<le> i' \<and> i' < 4 \<and> 0 \<le> j' \<and> j' < 4 \<and> (i', j') \<noteq> (1, 2) \<longrightarrow> get m' i' j' = get ?m i' j'"
    by auto
  moreover from this(3) have "get m' 2 1 = get ?m 2 1" by simp
  ultimately show ?thesis using old by auto
qed

subsection \<open>Transpose\<close>

lemma transpose_explicit:
  "transpose_mat \<lparr>values = [a0, a1, a2, a3, a4, a5, a6, a7, a8, a9, a10, a11, a12, a13, a14, a15],
                  nR = 4, nC = 4\<rparr>
   = Some \<lparr>values = [a0, a4, a8, a12, a1, a5, a9, a13, a2, a6, a10, a14, a3, a7, a11, a15],
           nR = 4, nC = 4\<rparr>"
  by (simp add: transpose_mat_def setIdentity_resized for_upto_4 store_def vec_write_def
      load_def vec_read_def)

text \<open>
  C4. For a well-formed matrix \<open>M\<close> the transpose operator returns a new well-formed
  matrix \<open>T\<close> with \<open>T[j][i] = M[i][j]\<close> for all \<open>i\<close>, \<open>j\<close> in \<open>[0,4)\<close>, and transposing
  \<open>T\<close> again returns \<open>M\<close> itself.
\<close>

theorem transpose_self_inverse:
  assumes "Mat4_inv m"
  shows "\<exists>t. transpose_mat m = Some t \<and> Mat4_inv t \<and>
           (\<forall>i j. 0 \<le> i \<and> i < 4 \<and> 0 \<le> j \<and> j < 4 \<longrightarrow> get t j i = get m i j) \<and>
           transpose_mat t = Some m"
proof -
  from assms obtain a0 a1 a2 a3 a4 a5 a6 a7 a8 a9 a10 a11 a12 a13 a14 a15 where
    m: "m = \<lparr>values = [a0, a1, a2, a3, a4, a5, a6, a7, a8, a9, a10, a11, a12, a13, a14, a15],
             nR = 4, nC = 4\<rparr>"
    by (rule Mat4_inv_cases)
  define t where
    "t = \<lparr>values = [a0, a4, a8, a12, a1, a5, a9, a13, a2, a6, a10, a14, a3, a7, a11, a15],
          nR = 4, nC = 4\<rparr>"
  have 1: "transpose_mat m = Some t"
    unfolding m t_def by (rule transpose_explicit)
  have 2: "Mat4_inv t"
    by (simp add: t_def Mat4_inv_def)
  have 3: "get t j i = get m i j" if "0 \<le> i" "i < 4" "0 \<le> j" "j < 4" for i j
    using in_range_4 [OF that(1,2)] in_range_4 [OF that(3,4)]
    by (auto simp: m t_def get_def load_def vec_read_def)
  have 4: "transpose_mat t = Some m"
    unfolding m t_def by (rule transpose_explicit)
  from 1 2 3 4 show ?thesis by blast
qed

theorem transpose_self_inverse_witness:
  "\<exists>t. transpose_mat \<lparr>values = [1, 2, 3, 4, 5, 6, 7, 8, 9, 10, 11, 12, 13, 14, 15, 16 :: int],
                       nR = 4, nC = 4\<rparr> = Some t \<and>
       get t 3 0 = Some 4 \<and>
       transpose_mat t = Some \<lparr>values = [1, 2, 3, 4, 5, 6, 7, 8, 9, 10, 11, 12, 13, 14, 15, 16],
                                nR = 4, nC = 4\<rparr>"
proof -
  let ?m = "\<lparr>values = [1, 2, 3, 4, 5, 6, 7, 8, 9, 10, 11, 12, 13, 14, 15, 16 :: int], nR = 4, nC = 4\<rparr>"
  have inv: "Mat4_inv ?m" by (simp add: Mat4_inv_def)
  have old: "get ?m 0 3 = Some 4" by (simp add: get_def load_def vec_read_def)
  from transpose_self_inverse [OF inv] obtain t where
    t: "transpose_mat ?m = Some t" "transpose_mat t = Some ?m"
    "\<forall>i j. 0 \<le> i \<and> i < 4 \<and> 0 \<le> j \<and> j < 4 \<longrightarrow> get t j i = get ?m i j"
    by blast
  from t(3) have "get t 3 0 = get ?m 0 3" by simp
  with t old show ?thesis by auto
qed

subsection \<open>Matrix product\<close>

lemma mul_explicit:
  "mul \<lparr>values = [a0, a1, a2, a3, a4, a5, a6, a7, a8, a9, a10, a11, a12, a13, a14, a15],
         nR = 4, nC = 4\<rparr>
       \<lparr>values = [b0, b1, b2, b3, b4, b5, b6, b7, b8, b9, b10, b11, b12, b13, b14, b15],
         nR = 4, nC = 4\<rparr>
   = Some \<lparr>values =
       [0 + a0 * b0 + a1 * b4 + a2 * b8 + a3 * b12,
        0 + a0 * b1 + a1 * b5 + a2 * b9 + a3 * b13,
        0 + a0 * b2 + a1 * b6 + a2 * b10 + a3 * b14,
        0 + a0 * b3 + a1 * b7 + a2 * b11 + a3 * b15,
        0 + a4 * b0 + a5 * b4 + a6 * b8 + a7 * b12,
        0 + a4 * b1 + a5 * b5 + a6 * b9 + a7 * b13,
        0 + a4 * b2 + a5 * b6 + a6 * b10 + a7 * b14,
        0 + a4 * b3 + a5 * b7 + a6 * b11 + a7 * b15,
        0 + a8 * b0 + a9 * b4 + a10 * b8 + a11 * b12,
        0 + a8 * b1 + a9 * b5 + a10 * b9 + a11 * b13,
        0 + a8 * b2 + a9 * b6 + a10 * b10 + a11 * b14,
        0 + a8 * b3 + a9 * b7 + a10 * b11 + a11 * b15,
        0 + a12 * b0 + a13 * b4 + a14 * b8 + a15 * b12,
        0 + a12 * b1 + a13 * b5 + a14 * b9 + a15 * b13,
        0 + a12 * b2 + a13 * b6 + a14 * b10 + a15 * b14,
        0 + a12 * b3 + a13 * b7 + a14 * b11 + a15 * b15],
       nR = 4, nC = 4\<rparr>"
  by (simp add: mul_def setIdentity_resized for_upto_4 store_def vec_write_def
      load_def vec_read_def)

text \<open>
  C1. For well-formed matrices \<open>a\<close> and \<open>b\<close> the product operator returns a new
  well-formed matrix whose entry at row \<open>i\<close>, column \<open>j\<close> is the sum of
  \<open>a[i][k] * b[k][j]\<close> for \<open>k = 0, 1, 2, 3\<close>, accumulated in this order from \<open>0\<close>, for
  all \<open>i\<close>, \<open>j\<close> in \<open>[0,4)\<close>. No law of the element arithmetic is used: the entry is
  this very expression, whatever \<open>+\<close> and \<open>*\<close> are.
\<close>

theorem mul_entries:
  fixes a b :: "'a::{zero,one,plus,times} Mat4"
  assumes "Mat4_inv a" "Mat4_inv b"
  shows "\<exists>r. mul a b = Some r \<and> Mat4_inv r \<and>
           (\<forall>i j. 0 \<le> i \<and> i < 4 \<and> 0 \<le> j \<and> j < 4 \<longrightarrow>
              get r i j = Some (0 + elem a i 0 * elem b 0 j + elem a i 1 * elem b 1 j
                                  + elem a i 2 * elem b 2 j + elem a i 3 * elem b 3 j))"
proof -
  from assms(1) obtain a0 a1 a2 a3 a4 a5 a6 a7 a8 a9 a10 a11 a12 a13 a14 a15 where
    a: "a = \<lparr>values = [a0, a1, a2, a3, a4, a5, a6, a7, a8, a9, a10, a11, a12, a13, a14, a15],
             nR = 4, nC = 4\<rparr>"
    by (rule Mat4_inv_cases)
  from assms(2) obtain b0 b1 b2 b3 b4 b5 b6 b7 b8 b9 b10 b11 b12 b13 b14 b15 where
    b: "b = \<lparr>values = [b0, b1, b2, b3, b4, b5, b6, b7, b8, b9, b10, b11, b12, b13, b14, b15],
             nR = 4, nC = 4\<rparr>"
    by (rule Mat4_inv_cases)
  obtain r where r: "mul a b = Some r"
    unfolding a b mul_explicit by blast
  have vals: "r = the (mul a b)" using r by simp
  have inv: "Mat4_inv r"
    unfolding vals a b mul_explicit by (simp add: Mat4_inv_def)
  have entry: "get r i j = Some (0 + elem a i 0 * elem b 0 j + elem a i 1 * elem b 1 j
                                   + elem a i 2 * elem b 2 j + elem a i 3 * elem b 3 j)"
    if "0 \<le> i" "i < 4" "0 \<le> j" "j < 4" for i j
    using in_range_4 [OF that(1,2)] in_range_4 [OF that(3,4)]
    unfolding vals a b mul_explicit
    by (auto simp: get_def load_def vec_read_def elem_def)
  from r inv entry show ?thesis by blast
qed

theorem mul_entries_witness:
  "\<exists>r. mul \<lparr>values = [1, 2, 3, 4, 5, 6, 7, 8, 9, 10, 11, 12, 13, 14, 15, 16 :: int], nR = 4, nC = 4\<rparr>
             \<lparr>values = [2, 0, 0, 1, 0, 2, 0, 0, 0, 0, 2, 0, 0, 0, 0, 2], nR = 4, nC = 4\<rparr> = Some r \<and>
       get r 1 3 = Some 21"
proof -
  let ?a = "\<lparr>values = [1, 2, 3, 4, 5, 6, 7, 8, 9, 10, 11, 12, 13, 14, 15, 16 :: int], nR = 4, nC = 4\<rparr>"
  let ?b = "\<lparr>values = [2, 0, 0, 1, 0, 2, 0, 0, 0, 0, 2, 0, 0, 0, 0, 2 :: int], nR = 4, nC = 4\<rparr>"
  have inv: "Mat4_inv ?a" "Mat4_inv ?b" by (simp_all add: Mat4_inv_def)
  from mul_entries [OF inv] obtain r where
    r: "mul ?a ?b = Some r"
    "\<forall>i j. 0 \<le> i \<and> i < 4 \<and> 0 \<le> j \<and> j < 4 \<longrightarrow>
       get r i j = Some (0 + elem ?a i 0 * elem ?b 0 j + elem ?a i 1 * elem ?b 1 j
                           + elem ?a i 2 * elem ?b 2 j + elem ?a i 3 * elem ?b 3 j)"
    by blast
  from r(2) have "get r 1 3 = Some (0 + elem ?a 1 0 * elem ?b 0 3 + elem ?a 1 1 * elem ?b 1 3
                           + elem ?a 1 2 * elem ?b 2 3 + elem ?a 1 3 * elem ?b 3 3)"
    by simp
  then have "get r 1 3 = Some 21" by (simp add: elem_def)
  with r(1) show ?thesis by blast
qed

subsection \<open>Matrix times vector\<close>

text \<open>
  C2. For a well-formed matrix \<open>M\<close> and a vector \<open>v\<close>, the matrix-times-vector operator
  returns the vector whose component \<open>i\<close> (\<open>i = 0, 1, 2\<close>) is
  \<open>M[i][0] * v[0] + M[i][1] * v[1] + M[i][2] * v[2]\<close>. The result depends on the top-left
  3x3 block of \<open>M\<close> only: a well-formed matrix that agrees with \<open>M\<close> on this block gives
  the same result, and so does \<open>M\<close> with any value written to an offset of the
  translation column (3, 7, 11) or of the bottom row (12 to 15).
\<close>

theorem mul_vec_block:
  fixes m :: "'a::{plus,times} Mat4"
  assumes "Mat4_inv m"
  shows "mul_vec m (Vec3f v0 v1 v2) =
           Some (Vec3f (elem m 0 0 * v0 + elem m 0 1 * v1 + elem m 0 2 * v2)
                       (elem m 1 0 * v0 + elem m 1 1 * v1 + elem m 1 2 * v2)
                       (elem m 2 0 * v0 + elem m 2 1 * v1 + elem m 2 2 * v2)) \<and>
         (\<forall>m'. Mat4_inv m' \<and> (\<forall>i k. 0 \<le> i \<and> i < 3 \<and> 0 \<le> k \<and> k < 3 \<longrightarrow> elem m' i k = elem m i k)
            \<longrightarrow> mul_vec m' (Vec3f v0 v1 v2) = mul_vec m (Vec3f v0 v1 v2)) \<and>
         (\<forall>k\<in>{3, 7, 11, 12, 13, 14, 15}. \<forall>c.
            mul_vec (m\<lparr>values := (values m)[k := c]\<rparr>) (Vec3f v0 v1 v2) = mul_vec m (Vec3f v0 v1 v2))"
proof -
  have formula: "mul_vec n (Vec3f v0 v1 v2) =
           Some (Vec3f (elem n 0 0 * v0 + elem n 0 1 * v1 + elem n 0 2 * v2)
                       (elem n 1 0 * v0 + elem n 1 1 * v1 + elem n 1 2 * v2)
                       (elem n 2 0 * v0 + elem n 2 1 * v1 + elem n 2 2 * v2))"
    if "Mat4_inv n" for n :: "'a Mat4"
    using that by (simp add: mul_vec_def load_def vec_read_def elem_def Mat4_inv_def)
  have agree: "mul_vec m' (Vec3f v0 v1 v2) = mul_vec m (Vec3f v0 v1 v2)"
    if "Mat4_inv m'" and
      eq: "\<forall>i k. 0 \<le> i \<and> i < 3 \<and> 0 \<le> k \<and> k < 3 \<longrightarrow> elem m' i k = elem m i k" for m'
  proof -
    from eq have "elem m' 0 0 = elem m 0 0" "elem m' 0 1 = elem m 0 1" "elem m' 0 2 = elem m 0 2"
      "elem m' 1 0 = elem m 1 0" "elem m' 1 1 = elem m 1 1" "elem m' 1 2 = elem m 1 2"
      "elem m' 2 0 = elem m 2 0" "elem m' 2 1 = elem m 2 1" "elem m' 2 2 = elem m 2 2"
      by simp_all
    then show ?thesis
      by (simp add: formula [OF assms] formula [OF that(1)])
  qed
  have frame: "mul_vec (m\<lparr>values := (values m)[k := c]\<rparr>) (Vec3f v0 v1 v2) = mul_vec m (Vec3f v0 v1 v2)"
    if "k \<in> {3, 7, 11, 12, 13, 14, 15}" for k c
    using that assms by (auto simp: mul_vec_def load_def vec_read_def Mat4_inv_def)
  from formula [OF assms] agree frame show ?thesis by blast
qed

theorem mul_vec_block_witness:
  "mul_vec \<lparr>values = [1, 2, 3, 4, 5, 6, 7, 8, 9, 10, 11, 12, 13, 14, 15, 16 :: int], nR = 4, nC = 4\<rparr>
     (Vec3f 1 0 2) = Some (Vec3f 7 19 31) \<and>
   mul_vec \<lparr>values = [1, 2, 3, 0, 5, 6, 7, 0, 9, 10, 11, 0, 0, 0, 0, 1 :: int], nR = 4, nC = 4\<rparr>
     (Vec3f 1 0 2) = Some (Vec3f 7 19 31)"
proof -
  let ?m = "\<lparr>values = [1, 2, 3, 4, 5, 6, 7, 8, 9, 10, 11, 12, 13, 14, 15, 16 :: int], nR = 4, nC = 4\<rparr>"
  let ?m' = "\<lparr>values = [1, 2, 3, 0, 5, 6, 7, 0, 9, 10, 11, 0, 0, 0, 0, 1 :: int], nR = 4, nC = 4\<rparr>"
  have inv: "Mat4_inv ?m" "Mat4_inv ?m'" by (simp_all add: Mat4_inv_def)
  have eq: "\<forall>i k. 0 \<le> i \<and> i < 3 \<and> 0 \<le> k \<and> k < 3 \<longrightarrow> elem ?m' i k = elem ?m i k"
  proof (intro allI impI)
    fix i k :: int
    assume "0 \<le> i \<and> i < 3 \<and> 0 \<le> k \<and> k < 3"
    then have "(i = 0 \<or> i = 1 \<or> i = 2) \<and> (k = 0 \<or> k = 1 \<or> k = 2)" by linarith
    then show "elem ?m' i k = elem ?m i k" by (auto simp: elem_def)
  qed
  note inst = mul_vec_block [OF inv(1), of 1 0 2]
  from inst have "mul_vec ?m (Vec3f 1 0 2) = Some (Vec3f 7 19 31)"
    by (simp add: elem_def)
  moreover from inst inv(2) eq have "mul_vec ?m' (Vec3f 1 0 2) = mul_vec ?m (Vec3f 1 0 2)"
    by blast
  ultimately show ?thesis by simp
qed

subsection \<open>Translation\<close>

text \<open>
  C6. For every vector \<open>(tx, ty, tz)\<close> the translation constructor produces the identity
  matrix with \<open>tx\<close>, \<open>ty\<close>, \<open>tz\<close> written at the offsets 3, 7, 11, so that
  \<open>get(0,3) = tx\<close>, \<open>get(1,3) = ty\<close>, \<open>get(2,3) = tz\<close>, and extracting the translation
  of that matrix returns \<open>(tx, ty, tz)\<close>.
\<close>

theorem translation_roundtrip:
  "\<exists>m idm. Mat4_translation (Vec3 tx ty tz) = Some m \<and> Mat4_inv m \<and>
     Mat4_init IDENTITY = Some idm \<and>
     m = idm\<lparr>values := (values idm)[3 := tx, 7 := ty, 11 := tz]\<rparr> \<and>
     values m = [1, 0, 0, tx, 0, 1, 0, ty, 0, 0, 1, tz, 0, 0, 0, 1] \<and>
     get m 0 3 = Some tx \<and> get m 1 3 = Some ty \<and> get m 2 3 = Some tz \<and>
     getTranslationVec3 m = Some (Vec3 tx ty tz)"
  by (simp add: Mat4_translation_def setIdentity_resized store_def vec_write_def Mat4_inv_def
      get_def load_def vec_read_def getTranslationVec3_def)

theorem translation_roundtrip_witness:
  "\<exists>m. Mat4_translation (Vec3 5 (- 2) (7::int)) = Some m \<and> get m 1 3 = Some (- 2) \<and>
     getTranslationVec3 m = Some (Vec3 5 (- 2) 7)"
  using translation_roundtrip [of 5 "- 2" "7::int"] by auto

subsection \<open>Column-major dump\<close>

lemma at_least_16:
  assumes "16 \<le> length xs"
  obtains c0 c1 c2 c3 c4 c5 c6 c7 c8 c9 c10 c11 c12 c13 c14 c15 rest where
    "xs = c0 # c1 # c2 # c3 # c4 # c5 # c6 # c7 # c8 # c9 # c10 # c11 # c12 # c13 # c14 # c15 # rest"
proof -
  have "length (take 16 xs) = 16" using assms by simp
  then obtain c0 c1 c2 c3 c4 c5 c6 c7 c8 c9 c10 c11 c12 c13 c14 c15 where
    "take 16 xs = [c0, c1, c2, c3, c4, c5, c6, c7, c8, c9, c10, c11, c12, c13, c14, c15]"
    by (rule length_16_cases)
  then have "xs = [c0, c1, c2, c3, c4, c5, c6, c7, c8, c9, c10, c11, c12, c13, c14, c15] @ drop 16 xs"
    by (metis append_take_drop_id)
  then show thesis using that by simp
qed

lemma dump_explicit:
  "dumpColumnWise
     \<lparr>values = [a0, a1, a2, a3, a4, a5, a6, a7, a8, a9, a10, a11, a12, a13, a14, a15], nR = 4, nC = 4\<rparr>
     (c0 # c1 # c2 # c3 # c4 # c5 # c6 # c7 # c8 # c9 # c10 # c11 # c12 # c13 # c14 # c15 # rest)
   = Some (a0 # a4 # a8 # a12 # a1 # a5 # a9 # a13 # a2 # a6 # a10 # a14 # a3 # a7 # a11 # a15 # rest)"
  by (simp add: dumpColumnWise_def for_upto_4 load_def vec_read_def vec_write_def)

text \<open>
  C8. For a well-formed matrix \<open>M\<close> and a buffer of at least 16 slots, the column-major
  dump succeeds and returns the buffer with \<open>M[i][j]\<close> at offset \<open>i + j * 4\<close> for all
  \<open>i\<close>, \<open>j\<close> in \<open>[0,4)\<close>, and with every slot from 16 on unchanged. The dump of the
  identity matrix starts with \<open>1,0,0,0, 0,1,0,0, 0,0,1,0, 0,0,0,1\<close>.
\<close>

theorem dump_column_major:
  assumes "Mat4_inv m" "16 \<le> length array"
  shows "\<exists>out. dumpColumnWise m array = Some out \<and> length out = length array \<and>
           (\<forall>i j. 0 \<le> i \<and> i < 4 \<and> 0 \<le> j \<and> j < 4 \<longrightarrow> out ! nat (i + j * 4) = elem m i j) \<and>
           drop 16 out = drop 16 array \<and>
           (\<forall>idm out'. Mat4_init IDENTITY = Some idm \<and> dumpColumnWise idm array = Some out' \<longrightarrow>
              take 16 out' = [1, 0, 0, 0, 0, 1, 0, 0, 0, 0, 1, 0, 0, 0, 0, 1])"
proof -
  from assms(1) obtain a0 a1 a2 a3 a4 a5 a6 a7 a8 a9 a10 a11 a12 a13 a14 a15 where
    m: "m = \<lparr>values = [a0, a1, a2, a3, a4, a5, a6, a7, a8, a9, a10, a11, a12, a13, a14, a15],
             nR = 4, nC = 4\<rparr>"
    by (rule Mat4_inv_cases)
  from assms(2) obtain c0 c1 c2 c3 c4 c5 c6 c7 c8 c9 c10 c11 c12 c13 c14 c15 rest where
    array: "array = c0 # c1 # c2 # c3 # c4 # c5 # c6 # c7 # c8 # c9 # c10 # c11 # c12 # c13 # c14 # c15 # rest"
    by (rule at_least_16)
  define out where
    "out = a0 # a4 # a8 # a12 # a1 # a5 # a9 # a13 # a2 # a6 # a10 # a14 # a3 # a7 # a11 # a15 # rest"
  have 1: "dumpColumnWise m array = Some out"
    unfolding m array out_def by (rule dump_explicit)
  have 2: "length out = length array" "drop 16 out = drop 16 array"
    by (simp_all add: out_def array)
  have 3: "out ! nat (i + j * 4) = elem m i j" if "0 \<le> i" "i < 4" "0 \<le> j" "j < 4" for i j
    using in_range_4 [OF that(1,2)] in_range_4 [OF that(3,4)]
    by (auto simp: out_def m elem_def)
  have 4: "take 16 out' = [1, 0, 0, 0, 0, 1, 0, 0, 0, 0, 1, 0, 0, 0, 0, 1]"
    if "Mat4_init IDENTITY = Some idm" "dumpColumnWise idm array = Some out'" for idm out'
    using that by (auto simp: setIdentity_resized array dump_explicit)
  from 1 2 3 4 show ?thesis by blast
qed

theorem dump_column_major_witness:
  "\<exists>out. dumpColumnWise \<lparr>values = [1, 2, 3, 4, 5, 6, 7, 8, 9, 10, 11, 12, 13, 14, 15, 16 :: int],
                          nR = 4, nC = 4\<rparr> (replicate 17 0) = Some out \<and>
         out ! 13 = 8 \<and> out ! 16 = 0 \<and> length out = 17"
proof -
  let ?m = "\<lparr>values = [1, 2, 3, 4, 5, 6, 7, 8, 9, 10, 11, 12, 13, 14, 15, 16 :: int], nR = 4, nC = 4\<rparr>"
  have inv: "Mat4_inv ?m" by (simp add: Mat4_inv_def)
  have len: "16 \<le> length (replicate 17 (0::int))" by simp
  from dump_column_major [OF inv len] obtain out where
    out: "dumpColumnWise ?m (replicate 17 0) = Some out" "length out = length (replicate 17 (0::int))"
    "\<forall>i j. 0 \<le> i \<and> i < 4 \<and> 0 \<le> j \<and> j < 4 \<longrightarrow> out ! nat (i + j * 4) = elem ?m i j"
    "drop 16 out = drop 16 (replicate 17 (0::int))"
    by blast
  from out(3) [rule_format, of 1 3] have a: "out ! 13 = 8" by (simp add: elem_def)
  have "out ! 16 = drop 16 out ! 0" using out(2) by simp
  also have "\<dots> = 0" unfolding out(4) by simp
  finally have b: "out ! 16 = 0" .
  from out(1,2) a b show ?thesis by simp
qed

section \<open>Proofs about the arithmetic\<close>

subsection \<open>Rounding\<close>

lemma round_half_even_bounds:
  "of_int (round_half_even x) \<le> x + 1 / 2" "x - 1 / 2 \<le> of_int (round_half_even x)"
  unfolding round_half_even_def Let_def by (auto; linarith)+

lemma round_half_even_mono:
  assumes "x \<le> y"
  shows "round_half_even x \<le> round_half_even y"
proof (rule ccontr)
  assume "\<not> round_half_even x \<le> round_half_even y"
  then have "round_half_even y + 1 \<le> round_half_even x" by simp
  then have "rat_of_int (round_half_even y) + 1 \<le> rat_of_int (round_half_even x)"
    by (metis of_int_1 of_int_add of_int_le_iff)
  with round_half_even_bounds(1) [of x] round_half_even_bounds(2) [of y] assms
  have "x = y" by linarith
  with \<open>\<not> round_half_even x \<le> round_half_even y\<close> show False by simp
qed

lemma round_half_even_of_int [simp]: "round_half_even (of_int n) = n"
  by (simp add: round_half_even_def)

lemma bitlen_rat_bounds:
  assumes "0 < a"
  shows "(2::rat) powi bitlen a \<le> 2 * of_int a" "of_int a < (2::rat) powi bitlen a"
proof -
  from assms have pos: "1 \<le> bitlen a" by (auto simp: bitlen_alt_def)
  from bitlen_bounds [OF assms] have 1: "2 ^ nat (bitlen a - 1) \<le> a" and 2: "a < 2 ^ nat (bitlen a)"
    by simp_all
  from 2 have "rat_of_int a < of_int (2 ^ nat (bitlen a))"
    by (simp only: of_int_less_iff)
  then show "of_int a < (2::rat) powi bitlen a"
    using pos by (simp add: power_int_def)
  from 1 have "rat_of_int (2 ^ nat (bitlen a - 1)) \<le> of_int a"
    by (simp only: of_int_le_iff)
  then have "(2::rat) powi (bitlen a - 1) \<le> of_int a"
    using pos by (simp add: power_int_def)
  then show "(2::rat) powi bitlen a \<le> 2 * of_int a"
    by (simp add: power_int_diff)
qed

lemma ilog2_bounds:
  assumes "0 < q"
  shows "2 powi ilog2 q \<le> q" "q < 2 powi (ilog2 q + 1)"
proof -
  obtain a b where ab: "quotient_of q = (a, b)" by (cases "quotient_of q")
  then have b: "0 < b" and q: "q = of_int a / of_int b"
    using quotient_of_denom_pos quotient_of_div by auto
  with assms have a: "0 < a"
    by (simp add: zero_less_divide_iff)
  define A B :: rat where "A = 2 powi bitlen a" and "B = 2 powi bitlen b"
  define x y :: rat where "x = of_int a" and "y = of_int b"
  have pos: "0 < A" "0 < B" "0 < x" "0 < y"
    using a b by (simp_all add: A_def B_def x_def y_def)
  have bounds: "A \<le> 2 * x" "x < A" "B \<le> 2 * y" "y < B"
    using bitlen_rat_bounds [OF a] bitlen_rat_bounds [OF b] by (simp_all add: A_def B_def x_def y_def)
  have k: "2 powi (bitlen a - bitlen b) = A / B"
    by (simp add: power_int_diff A_def B_def)
  have k1: "2 powi (bitlen a - bitlen b + 1) = 2 * A / B"
    by (simp add: power_int_add k)
  have k2: "2 powi (bitlen a - bitlen b - 1) = A / (2 * B)"
    by (simp add: power_int_diff k)
  have "x * B < A * B" using bounds pos by simp
  also have "\<dots> \<le> A * (2 * y)" using bounds pos by simp
  finally have up: "x / y < 2 * A / B"
    using pos by (simp add: field_simps)
  have "A * y \<le> (2 * x) * y" using bounds pos by simp
  also have "\<dots> \<le> (2 * x) * B" using bounds pos by simp
  finally have low: "A / (2 * B) \<le> x / y"
    using pos by (simp add: field_simps)
  have il: "ilog2 q = (if A / B \<le> q then bitlen a - bitlen b else bitlen a - bitlen b - 1)"
    unfolding ilog2_def ab by (simp add: Let_def k)
  have qxy: "q = x / y" by (simp add: q x_def y_def)
  show "2 powi ilog2 q \<le> q"
    using low by (simp add: il k k2 flip: qxy)
  show "q < 2 powi (ilog2 q + 1)"
    using up by (auto simp: il k k1 simp flip: qxy)
qed

lemma ilog2_mono:
  assumes "0 < p" "p \<le> q"
  shows "ilog2 p \<le> ilog2 q"
proof (rule ccontr)
  assume "\<not> ilog2 p \<le> ilog2 q"
  then have "ilog2 q + 1 \<le> ilog2 p" by simp
  then have "(2::rat) powi (ilog2 q + 1) \<le> 2 powi ilog2 p"
    by (intro power_int_increasing) simp_all
  also have "\<dots> \<le> p" using assms by (intro ilog2_bounds) 
  also have "\<dots> \<le> q" by fact
  also have "\<dots> < 2 powi (ilog2 q + 1)" using assms by (intro ilog2_bounds) simp
  finally show False by simp
qed


lemma round_half_even_nonneg: "0 \<le> x \<Longrightarrow> 0 \<le> round_half_even x"
  using round_half_even_mono [of 0 x] round_half_even_of_int [of 0] by simp

lemma round_mag_nonneg: "0 \<le> q \<Longrightarrow> 0 \<le> round_mag fmt q"
  by (simp add: round_mag_def Let_def round_half_even_nonneg)

lemma round_mag_mono:
  assumes prec: "0 < precision fmt" and "0 \<le> p" "p \<le> q"
  shows "round_mag fmt p \<le> round_mag fmt q"
proof (cases "p = 0")
  case True
  have "round_mag fmt 0 = 0" by (simp add: round_mag_def)
  with True assms round_mag_nonneg [of q fmt] show ?thesis by simp
next
  case False
  with assms have p: "0 < p" and q: "0 < q" by simp_all
  define P where "P = int (precision fmt)"
  define ep where "ep = max (emin fmt) (ilog2 p - (P - 1))"
  define eq where "eq = max (emin fmt) (ilog2 q - (P - 1))"
  have rp: "round_mag fmt p = of_int (round_half_even (p / 2 powi ep)) * 2 powi ep"
    using p by (simp add: round_mag_def ep_def P_def Let_def)
  have rq: "round_mag fmt q = of_int (round_half_even (q / 2 powi eq)) * 2 powi eq"
    using q by (simp add: round_mag_def eq_def P_def Let_def)
  have le: "ep \<le> eq"
    using ilog2_mono [OF p assms(3)] by (simp add: ep_def eq_def)
  show ?thesis
  proof (cases "ep = eq")
    case True
    have "p / 2 powi eq \<le> q / 2 powi eq"
      using assms(3) by (simp add: divide_right_mono)
    then have "round_half_even (p / 2 powi eq) \<le> round_half_even (q / 2 powi eq)"
      by (rule round_half_even_mono)
    then show ?thesis
      unfolding rp rq True by (simp add: mult_right_mono)
  next
    case False
    with le have lt: "ep + 1 \<le> eq" by simp
    have "emin fmt \<le> ep" by (simp add: ep_def)
    with lt have eq_val: "eq = ilog2 q - (P - 1)" by (simp add: eq_def)
    have "ilog2 p + 1 \<le> ep + P" by (simp add: ep_def)
    then have "(2::rat) powi (ilog2 p + 1) \<le> 2 powi (ep + P)"
      by (intro power_int_increasing) simp_all
    with ilog2_bounds(2) [OF p] have "p < 2 powi (ep + P)" by simp
    then have "p / 2 powi ep \<le> 2 powi P"
      by (simp add: power_int_add field_simps)
    also have "(2::rat) powi P = of_int (2 ^ precision fmt)"
      by (simp add: P_def)
    finally have "round_half_even (p / 2 powi ep) \<le> round_half_even (of_int (2 ^ precision fmt))"
      by (rule round_half_even_mono)
    then have "round_half_even (p / 2 powi ep) \<le> 2 ^ precision fmt"
      by (simp only: round_half_even_of_int)
    then have "rat_of_int (round_half_even (p / 2 powi ep)) \<le> of_int (2 ^ precision fmt)"
      by (simp only: of_int_le_iff)
    then have "round_mag fmt p \<le> 2 powi P * 2 powi ep"
      unfolding rp by (simp add: P_def mult_right_mono)
    also have "\<dots> = 2 powi (ep + 1 + (P - 1))"
      by (simp add: power_int_add power_int_diff)
    also have "\<dots> \<le> 2 powi (eq + (P - 1))"
      using lt by (intro power_int_increasing) simp_all
    finally have upper: "round_mag fmt p \<le> 2 powi (eq + (P - 1))" .
    have P1: "P - 1 = int (precision fmt - 1)"
      using prec by (simp add: P_def)
    have split: "(2::rat) powi (eq + (P - 1)) = 2 powi (P - 1) * 2 powi eq"
      by (subst power_int_add) simp_all
    have "(2::rat) powi (eq + (P - 1)) \<le> q"
      using ilog2_bounds(1) [OF q] by (simp add: eq_val)
    then have "2 powi (P - 1) \<le> q / 2 powi eq"
      unfolding split by (simp add: pos_le_divide_eq)
    moreover have "(2::rat) powi (P - 1) = of_int (2 ^ (precision fmt - 1))"
      unfolding P1 by simp
    ultimately have "round_half_even (of_int (2 ^ (precision fmt - 1))) \<le> round_half_even (q / 2 powi eq)"
      by (intro round_half_even_mono) simp
    then have "2 ^ (precision fmt - 1) \<le> round_half_even (q / 2 powi eq)"
      by (simp only: round_half_even_of_int)
    then have "rat_of_int (2 ^ (precision fmt - 1)) \<le> of_int (round_half_even (q / 2 powi eq))"
      by (simp only: of_int_le_iff)
    then have "2 powi (P - 1) * 2 powi eq \<le> round_mag fmt q"
      unfolding rq P1 by (simp add: mult_right_mono)
    then have "2 powi (eq + (P - 1)) \<le> round_mag fmt q"
      unfolding split .
    with upper show ?thesis by simp
  qed
qed

lemma round_mag_0 [simp]: "round_mag fmt 0 = 0"
  by (simp add: round_mag_def)

lemma round_to_0: "round_to binary32 s 0 = Fin s 0"
  by (simp add: round_to_def binary32_def)

lemma fin_floatE:
  assumes "fin_float x"
  obtains s q where "x = Fin s q" "0 \<le> q" "round_to binary32 s q = Fin s q"
  using assms by (cases x) (auto simp: fin_float_def)

lemma one_times: "fin_float x \<Longrightarrow> 1 * x = x"
  by (erule fin_floatE) (simp add: one_fp_def times_fp_def)

lemma times_one: "fin_float x \<Longrightarrow> x * 1 = x"
  by (erule fin_floatE) (simp add: one_fp_def times_fp_def)

lemma zero_times: "fin_float x \<Longrightarrow> is_zero (0 * x)"
  by (erule fin_floatE) (auto simp: zero_fp_def times_fp_def round_to_0 is_zero_def)

lemma times_zero: "fin_float x \<Longrightarrow> is_zero (x * 0)"
  by (erule fin_floatE) (auto simp: zero_fp_def times_fp_def round_to_0 is_zero_def)

lemma round_mag_values:
  "round_mag binary32 1 = 1" "round_mag binary32 32767 = 32767"
  "round_mag binary32 2147483647 = 2147483648"
  by code_simp+

lemma prec32: "0 < precision binary32" by (simp add: binary32_def)

lemma fp_of_int_nonneg:
  assumes "0 \<le> r" "r \<le> 2147483647"
  shows "fp_of_int binary32 r = Fin False (round_mag binary32 (of_int r))"
proof -
  have "round_mag binary32 (of_int r) \<le> round_mag binary32 2147483647"
    using assms by (intro round_mag_mono prec32) simp_all
  then have "round_mag binary32 (of_int r) \<le> 2147483648"
    by (simp only: round_mag_values)
  moreover have "(2147483648::rat) < 2 powi emax binary32"
    by (simp add: binary32_def)
  ultimately have "round_mag binary32 (of_int r) < 2 powi emax binary32"
    by (rule le_less_trans)
  then show ?thesis
    using assms(1) by (auto simp: fp_of_int_def round_signed_def round_to_def)
qed

lemma unit_random_bounds:
  assumes "32767 \<le> RAND_MAX" "RAND_MAX \<le> 2147483647" "0 \<le> r" "r \<le> RAND_MAX"
  shows "\<exists>u. unit_random RAND_MAX r = Fin False u \<and> 0 \<le> u \<and> u \<le> 1"
proof -
  define a where "a = round_mag binary32 (of_int r)"
  define b where "b = round_mag binary32 (of_int RAND_MAX)"
  have fa: "fp_of_int binary32 r = Fin False a"
    using assms by (simp add: fp_of_int_nonneg a_def)
  have fb: "fp_of_int binary32 RAND_MAX = Fin False b"
    using assms by (simp add: fp_of_int_nonneg b_def)
  have "round_mag binary32 32767 \<le> b"
    unfolding b_def using assms by (intro round_mag_mono prec32) simp_all
  then have b: "0 < b" by (simp add: round_mag_values)
  have a: "0 \<le> a" "a \<le> b"
    unfolding a_def b_def using assms by (auto intro!: round_mag_nonneg round_mag_mono prec32)
  then have ab: "0 \<le> a / b" "a / b \<le> 1" using b by simp_all
  define u where "u = round_mag binary32 (a / b)"
  have "u \<le> round_mag binary32 1"
    unfolding u_def using ab by (intro round_mag_mono prec32) simp_all
  then have u1: "u \<le> 1" by (simp add: round_mag_values)
  have u0: "0 \<le> u" unfolding u_def using ab by (intro round_mag_nonneg)
  from u1 have "\<not> 2 powi emax binary32 \<le> u" by (simp add: binary32_def)
  then have "unit_random RAND_MAX r = Fin False u"
    using b by (simp add: unit_random_def fa fb round_to_def u_def)
  with u0 u1 show ?thesis by blast
qed

subsection \<open>Rounded values are values of the format, and rounding is monotone\<close>

lemma pow2_le_D: "(2::rat) powi a \<le> 2 powi b \<Longrightarrow> a \<le> b"
proof (rule ccontr)
  assume le: "(2::rat) powi a \<le> 2 powi b" and "\<not> a \<le> b"
  then have "b < a" by simp
  then have "(2::rat) powi b < 2 powi a"
    by (intro power_int_strict_increasing) simp_all
  with le show False by simp
qed

lemma pow2_less_D: "(2::rat) powi a < 2 powi b \<Longrightarrow> a < b"
proof (rule ccontr)
  assume less: "(2::rat) powi a < 2 powi b" and "\<not> a < b"
  then have "b \<le> a" by simp
  then have "(2::rat) powi b \<le> 2 powi a"
    by (intro power_int_increasing) simp_all
  with less show False by simp
qed

lemma ilog2_power: "ilog2 (2 powi k) = k"
proof -
  have pos: "(0::rat) < 2 powi k" by simp
  from ilog2_bounds [OF pos] have "ilog2 (2 powi k) \<le> k" "k < ilog2 (2 powi k) + 1"
    by (auto dest: pow2_le_D pow2_less_D)
  then show ?thesis by simp
qed

lemma round_mag_grid:
  assumes "0 < q" "q / 2 powi max (emin fmt) (ilog2 q - (int (precision fmt) - 1)) = of_int n"
  shows "round_mag fmt q = q"
proof -
  define e where "e = max (emin fmt) (ilog2 q - (int (precision fmt) - 1))"
  have "round_mag fmt q = of_int (round_half_even (q / 2 powi e)) * 2 powi e"
    using assms(1) by (simp add: round_mag_def Let_def e_def)
  also have "q / 2 powi e = of_int n" using assms(2) by (simp add: e_def)
  also have "of_int (round_half_even (of_int n)) * 2 powi e = q / 2 powi e * 2 powi e"
    using assms(2) by (simp add: e_def)
  also have "\<dots> = q" by simp
  finally show ?thesis .
qed

lemma round_mag_idem:
  assumes prec: "0 < precision fmt" and "0 \<le> q"
  shows "round_mag fmt (round_mag fmt q) = round_mag fmt q"
proof (cases "round_mag fmt q = 0")
  case True
  then show ?thesis by (simp only: round_mag_0)
next
  case False
  have "q \<noteq> 0"
  proof
    assume "q = 0"
    then have "round_mag fmt q = 0" by (simp only: round_mag_0)
    with False show False ..
  qed
  with assms have q: "0 < q" by simp
  define P where "P = int (precision fmt)"
  define e where "e = max (emin fmt) (ilog2 q - (P - 1))"
  define m where "m = round_half_even (q / 2 powi e)"
  define r where "r = round_mag fmt q"
  have r: "r = of_int m * 2 powi e"
    using q by (simp add: r_def round_mag_def e_def m_def P_def Let_def)
  have "0 \<le> r" unfolding r_def using assms by (intro round_mag_nonneg)
  with False have rpos: "0 < r" by (simp add: r_def)
  have "(0::rat) < 2 powi e" by simp
  with rpos have "0 < rat_of_int m"
    unfolding r by (rule zero_less_mult_pos2)
  then have mpos: "0 < m" by simp
  define e' where "e' = max (emin fmt) (ilog2 r - (P - 1))"
  have "ilog2 q + 1 \<le> e + P" by (simp add: e_def)
  then have "(2::rat) powi (ilog2 q + 1) \<le> 2 powi (e + P)"
    by (intro power_int_increasing) simp_all
  with ilog2_bounds(2) [OF q] have "q < 2 powi (e + P)" by simp
  then have "q / 2 powi e \<le> 2 powi P"
    by (simp add: power_int_add field_simps)
  also have "(2::rat) powi P = of_int (2 ^ precision fmt)"
    by (simp add: P_def)
  finally have "round_half_even (q / 2 powi e) \<le> round_half_even (of_int (2 ^ precision fmt))"
    by (rule round_half_even_mono)
  then have mle: "m \<le> 2 ^ precision fmt"
    by (simp only: round_half_even_of_int m_def)
  have "\<exists>n. r / 2 powi e' = of_int n"
  proof (cases "e' \<le> e")
    case True
    then have "r / 2 powi e' = of_int m * 2 powi (e - e')"
      by (simp add: r power_int_diff)
    also have "\<dots> = of_int (m * 2 ^ nat (e - e'))"
      using True by (simp add: power_int_def)
    finally show ?thesis by blast
  next
    case False
    then have lt: "e < e'" by simp
    have "emin fmt \<le> e" by (simp add: e_def)
    with lt have e'_val: "e' = ilog2 r - (P - 1)" by (simp add: e'_def)
    with lt have "e + P \<le> ilog2 r" by simp
    then have "(2::rat) powi (e + P) \<le> 2 powi ilog2 r"
      by (intro power_int_increasing) simp_all
    also have "\<dots> \<le> r" by (rule ilog2_bounds(1) [OF rpos])
    finally have "(2::rat) powi P * 2 powi e \<le> of_int m * 2 powi e"
      by (simp add: r power_int_add mult.commute)
    then have "(2::rat) powi P \<le> of_int m" by simp
    then have "rat_of_int (2 ^ precision fmt) \<le> of_int m" by (simp add: P_def)
    then have "2 ^ precision fmt \<le> m" by (simp only: of_int_le_iff)
    with mle have m_val: "m = 2 ^ precision fmt" by simp
    then have r_val: "r = 2 powi (e + P)"
      by (simp add: r P_def power_int_add mult.commute)
    then have "ilog2 r = e + P" by (simp only: ilog2_power)
    then have e'1: "e' = e + 1" by (simp add: e'_val)
    have "P - 1 = int (precision fmt - 1)" using prec by (simp add: P_def)
    then have "(2::rat) powi (P - 1) = of_int (2 ^ (precision fmt - 1))" by simp
    moreover have "r / 2 powi e' = 2 powi (e + P - (e + 1))"
      unfolding r_val e'1 by (subst power_int_diff) simp_all
    ultimately have "r / 2 powi e' = of_int (2 ^ (precision fmt - 1))" by simp
    then show ?thesis by blast
  qed
  then obtain n where "r / 2 powi e' = of_int n" ..
  then have "round_mag fmt r = r"
    using rpos by (intro round_mag_grid [where n = n]) (simp_all add: e'_def P_def)
  then show ?thesis by (simp add: r_def)
qed

lemma round_to_cases:
  obtains "round_to fmt s q = Infty s" "2 powi emax fmt \<le> round_mag fmt q"
  | "round_to fmt s q = Fin s (round_mag fmt q)" "round_mag fmt q < 2 powi emax fmt"
  by (cases "2 powi emax fmt \<le> round_mag fmt q") (simp_all add: round_to_def)

lemma round_to_mono_pos:
  assumes "0 < precision fmt" "0 \<le> p" "p \<le> q"
  shows "fp_le (round_to fmt False p) (round_to fmt False q)"
proof -
  have le: "round_mag fmt p \<le> round_mag fmt q" using assms by (rule round_mag_mono)
  show ?thesis
    by (rule round_to_cases [of fmt False p]; rule round_to_cases [of fmt False q])
      (use le in \<open>simp_all add: signed_def\<close>)
qed

lemma round_to_mono_neg:
  assumes "0 < precision fmt" "0 \<le> p" "p \<le> q"
  shows "fp_le (round_to fmt True q) (round_to fmt True p)"
proof -
  have le: "round_mag fmt p \<le> round_mag fmt q" using assms by (rule round_mag_mono)
  show ?thesis
    by (rule round_to_cases [of fmt True p]; rule round_to_cases [of fmt True q])
      (use le in \<open>simp_all add: signed_def\<close>)
qed

lemma round_to_neg_le_zero: "0 \<le> q \<Longrightarrow> fp_le (round_to fmt True q) (Fin a 0)"
  by (rule round_to_cases [of fmt True q])
    (use round_mag_nonneg [of q fmt] in \<open>simp_all add: signed_def\<close>)

lemma round_to_zero_le_pos: "0 \<le> q \<Longrightarrow> fp_le (Fin a 0) (round_to fmt False q)"
  by (rule round_to_cases [of fmt False q])
    (use round_mag_nonneg [of q fmt] in \<open>simp_all add: signed_def\<close>)

lemma round_to_neg_le_pos:
  "0 \<le> q \<Longrightarrow> 0 \<le> p \<Longrightarrow> fp_le (round_to fmt True q) (round_to fmt False p)"
  by (rule round_to_cases [of fmt True q]; rule round_to_cases [of fmt False p])
    (use round_mag_nonneg [of q fmt] round_mag_nonneg [of p fmt] in \<open>simp_all add: signed_def\<close>)

lemma round_signed_mono:
  assumes "0 < precision fmt" "x \<le> y"
  shows "fp_le (round_signed fmt a x) (round_signed fmt b y)"
proof -
  consider "y < 0" | "x < 0" "y = 0" | "x < 0" "0 < y" | "x = 0" "y = 0" | "x = 0" "0 < y" | "0 < x"
    using assms(2) by linarith
  then show ?thesis
  proof cases
    case 1
    with assms show ?thesis
      by (simp add: round_signed_def round_to_mono_neg)
  next
    case 2
    then show ?thesis by (simp add: round_signed_def round_to_neg_le_zero)
  next
    case 3
    then show ?thesis by (simp add: round_signed_def round_to_neg_le_pos)
  next
    case 4
    then show ?thesis by (simp add: round_signed_def signed_def)
  next
    case 5
    then show ?thesis by (simp add: round_signed_def round_to_zero_le_pos)
  next
    case 6
    with assms show ?thesis
      by (simp add: round_signed_def round_to_mono_pos)
  qed
qed

lemma is_float_round_to: "0 \<le> q \<Longrightarrow> is_float (round_to binary32 s q)"
  by (rule round_to_cases [of binary32 s q])
    (simp_all add: round_mag_nonneg round_to_def round_mag_idem prec32)

lemma is_float_round_signed: "is_float (round_signed binary32 zs x)"
  by (simp add: round_signed_def is_float_round_to round_to_0)

lemma float_as_rounded:
  assumes "fin_float x"
  obtains s where "x = round_signed binary32 s (fp_val x)"
proof -
  from assms obtain s q where x: "x = Fin s q" "0 \<le> q" "round_to binary32 s q = Fin s q"
    by (rule fin_floatE)
  then have "x = round_signed binary32 s (fp_val x)"
    by (cases s) (auto simp: round_signed_def signed_def)
  then show thesis by (rule that)
qed

subsection \<open>Sums and products with zeros, infinities and NaN\<close>

lemma zero_plus_is_zero: "is_zero z \<Longrightarrow> (0::fp) + z = 0"
  by (auto simp: is_zero_def zero_fp_def plus_fp_def round_signed_def signed_def)

lemma zero_plus_float: "fin_float x \<Longrightarrow> 0 + x = pos_zero x"
  by (erule fin_floatE)
    (auto simp: pos_zero_def zero_fp_def plus_fp_def round_signed_def signed_def)

lemma pos_zero_plus_zero:
  assumes "fin_float x" "is_zero z"
  shows "pos_zero x + z = pos_zero x"
proof -
  from assms(1) obtain s q where x: "x = Fin s q" "0 \<le> q" "round_to binary32 s q = Fin s q"
    by (rule fin_floatE)
  show ?thesis
  proof (cases "q = 0")
    case True
    then have "pos_zero x = 0" by (cases s) (simp_all add: x pos_zero_def zero_fp_def)
    moreover have "0 + z = 0" using assms(2) by (rule zero_plus_is_zero)
    ultimately show ?thesis by simp
  next
    case False
    then have "pos_zero x = x" by (simp add: pos_zero_def x)
    moreover have "x + z = x"
      using x False assms(2)
      by (cases s) (auto simp: is_zero_def plus_fp_def round_signed_def signed_def)
    ultimately show ?thesis by simp
  qed
qed

lemma pos_zero_eq: "fin_float x \<Longrightarrow> fp_eq (pos_zero x) x"
  by (erule fin_floatE) (auto simp: pos_zero_def signed_def)

lemma exact_row_0:
  assumes "fin_float x" "is_zero z1" "is_zero z2" "is_zero z3"
  shows "0 + x + z1 + z2 + z3 = pos_zero x"
  using assms by (simp add: zero_plus_float pos_zero_plus_zero)

lemma exact_row_1:
  assumes "fin_float x" "is_zero z1" "is_zero z2" "is_zero z3"
  shows "0 + z1 + x + z2 + z3 = pos_zero x"
  using assms by (simp add: zero_plus_is_zero zero_plus_float pos_zero_plus_zero)

lemma exact_row_2:
  assumes "fin_float x" "is_zero z1" "is_zero z2" "is_zero z3"
  shows "0 + z1 + z2 + x + z3 = pos_zero x"
  using assms by (simp add: zero_plus_is_zero zero_plus_float pos_zero_plus_zero)

lemma exact_row_3:
  assumes "fin_float x" "is_zero z1" "is_zero z2" "is_zero z3"
  shows "0 + z1 + z2 + z3 + x = pos_zero x"
  using assms by (simp add: zero_plus_is_zero zero_plus_float pos_zero_plus_zero)

lemma NaN_plus [simp]: "NaN + x = NaN" "x + NaN = NaN"
  by (cases x; simp add: plus_fp_def)+

lemma fp_eq_NaN [simp]: "\<not> fp_eq NaN x" "\<not> fp_eq x NaN"
  by (cases x; simp)+

lemma zero_times_not_finite: "\<not> is_finite x \<Longrightarrow> 0 * x = NaN" "\<not> is_finite x \<Longrightarrow> x * 0 = NaN"
  by (cases x; simp add: zero_fp_def times_fp_def)+

subsection \<open>The unit random number and the rescaling\<close>

lemma float_magnitude:
  assumes "round_to binary32 s q = Fin s q"
  shows "round_mag binary32 q = q"
  by (rule round_to_cases [of binary32 s q]) (use assms in simp_all)

lemma uniform_bounds:
  assumes low: "fin_float low" and high: "fin_float high" and le: "fp_le low high"
    and fin: "is_finite (high - low)" and u: "0 \<le> u" "u \<le> 1"
  shows "fp_le low (low + Fin False u * (high - low)) \<and>
         fp_le (low + Fin False u * (high - low)) (low + (high - low))"
proof -
  from low obtain sl ql where l: "low = Fin sl ql" "0 \<le> ql" "round_to binary32 sl ql = Fin sl ql"
    by (rule fin_floatE)
  from high obtain sh qh where h: "high = Fin sh qh" "0 \<le> qh" "round_to binary32 sh qh = Fin sh qh"
    by (rule fin_floatE)
  define x where "x = signed sh qh - signed sl ql"
  from le have x: "0 \<le> x" by (simp add: l h x_def)
  have d: "high - low = round_signed binary32 (sh \<and> \<not> sl) x"
    by (simp add: l h minus_fp_def fp_sub_def x_def signed_def)
  then have "is_float (high - low)" by (simp add: is_float_round_signed)
  with fin have "fin_float (high - low)" by (simp add: fin_float_def)
  then obtain sd qd where dv: "high - low = Fin sd qd" "0 \<le> qd" "round_to binary32 sd qd = Fin sd qd"
    by (rule fin_floatE)
  have "fp_le (round_signed binary32 False 0) (round_signed binary32 (sh \<and> \<not> sl) x)"
    using x by (intro round_signed_mono prec32)
  moreover have "round_signed binary32 False 0 = Fin False 0"
    by (simp add: round_signed_def)
  ultimately have "fp_le (Fin False 0) (Fin sd qd)"
    by (simp only: dv flip: d)
  then have dpos: "0 \<le> signed sd qd"
    by (simp add: signed_def)
  define pm where "pm = round_mag binary32 (u * qd)"
  have "u * qd \<le> qd" using u dv(2) by (simp add: mult_left_le_one_le)
  then have "pm \<le> round_mag binary32 qd"
    unfolding pm_def using u dv(2) by (intro round_mag_mono prec32) simp_all
  then have pm: "pm \<le> qd" "0 \<le> pm"
    using u dv(2) by (simp_all add: float_magnitude [OF dv(3)] pm_def round_mag_nonneg)
  have "qd < 2 powi emax binary32"
    by (rule round_to_cases [of binary32 sd qd]) (use dv(3) float_magnitude [OF dv(3)] in simp_all)
  with pm have "\<not> 2 powi emax binary32 \<le> pm" by simp
  then have p: "Fin False u * (high - low) = Fin sd pm"
    by (simp add: dv times_fp_def round_to_def pm_def)
  have pv: "0 \<le> signed sd pm" "signed sd pm \<le> signed sd qd"
    using dpos pm by (auto simp: signed_def)
  obtain s where ls: "low = round_signed binary32 s (fp_val low)"
    using low by (rule float_as_rounded)
  have sum1: "low + Fin False u * (high - low) = round_signed binary32 (sl \<and> sd) (signed sl ql + signed sd pm)"
    by (simp only: p) (simp add: l plus_fp_def)
  have sum2: "low + (high - low) = round_signed binary32 (sl \<and> sd) (signed sl ql + signed sd qd)"
    by (simp only: dv(1)) (simp add: l plus_fp_def)
  have "fp_le (round_signed binary32 s (fp_val low))
          (round_signed binary32 (sl \<and> sd) (signed sl ql + signed sd pm))"
    using pv by (intro round_signed_mono prec32) (simp add: l)
  then have 1: "fp_le low (low + Fin False u * (high - low))"
    by (simp only: sum1 flip: ls)
  have 2: "fp_le (low + Fin False u * (high - low)) (low + (high - low))"
    unfolding sum1 sum2 using pv by (intro round_signed_mono prec32) simp
  from 1 2 show ?thesis ..
qed

lemma unit_random_value:
  assumes "32767 \<le> RAND_MAX" "RAND_MAX \<le> 2147483647" "0 \<le> r" "r \<le> RAND_MAX"
  shows "unit_random RAND_MAX r =
           Fin False (round_mag binary32
             (round_mag binary32 (of_int r) / round_mag binary32 (of_int RAND_MAX)))"
proof -
  define a where "a = round_mag binary32 (of_int r)"
  define b where "b = round_mag binary32 (of_int RAND_MAX)"
  have fa: "fp_of_int binary32 r = Fin False a"
    using assms by (simp add: fp_of_int_nonneg a_def)
  have fb: "fp_of_int binary32 RAND_MAX = Fin False b"
    using assms by (simp add: fp_of_int_nonneg b_def)
  have "round_mag binary32 32767 \<le> b"
    unfolding b_def using assms by (intro round_mag_mono prec32) simp_all
  then have b: "0 < b" by (simp add: round_mag_values)
  have a: "0 \<le> a" "a \<le> b"
    unfolding a_def b_def using assms by (auto intro!: round_mag_nonneg round_mag_mono prec32)
  then have ab: "0 \<le> a / b" "a / b \<le> 1" using b by simp_all
  define u where "u = round_mag binary32 (a / b)"
  have "u \<le> round_mag binary32 1"
    unfolding u_def using ab by (intro round_mag_mono prec32) simp_all
  then have u1: "u \<le> 1" by (simp add: round_mag_values)
  from u1 have "\<not> 2 powi emax binary32 \<le> u" by (simp add: binary32_def)
  then show ?thesis
    using b by (simp add: unit_random_def fa fb round_to_def u_def a_def b_def)
qed

lemma unit_random_ends:
  assumes "32767 \<le> RAND_MAX" "RAND_MAX \<le> 2147483647"
  shows "unit_random RAND_MAX 0 = 0" "unit_random RAND_MAX RAND_MAX = 1"
proof -
  have "round_mag binary32 32767 \<le> round_mag binary32 (of_int RAND_MAX)"
    using assms by (intro round_mag_mono prec32) simp_all
  then have b: "round_mag binary32 (of_int RAND_MAX) \<noteq> 0" by (simp add: round_mag_values)
  show "unit_random RAND_MAX 0 = 0"
    using assms by (subst unit_random_value) (simp_all add: zero_fp_def)
  show "unit_random RAND_MAX RAND_MAX = 1"
    using assms b by (subst unit_random_value) (simp_all add: one_fp_def round_mag_values)
qed

subsection \<open>The constant \<^verbatim>\<open>M_PI\<close> and the number \<open>\<pi>\<close>\<close>

lemma arctan_brackets:
  fixes x :: real
  assumes "0 < x" "x \<le> 1"
  shows "(\<Sum>i<2 * n. (- 1) ^ i * (1 / real (i * 2 + 1) * x ^ (i * 2 + 1))) \<le> arctan x"
    "arctan x \<le> (\<Sum>i<2 * n + 1. (- 1) ^ i * (1 / real (i * 2 + 1) * x ^ (i * 2 + 1)))"
proof -
  let ?a = "\<lambda>n. 1 / real (n * 2 + 1) * x ^ (n * 2 + 1)"
  have abs: "\<bar>x\<bar> \<le> 1" using assms by simp
  have "0 < ?a 0" using assms by simp
  with summable_Leibniz(2) [OF zeroseq_arctan_series [OF abs] monoseq_arctan_series [OF abs]]
  have "(\<Sum>i. (- 1) ^ i * ?a i) \<in> {\<Sum>i<2 * n. (- 1) ^ i * ?a i .. \<Sum>i<2 * n + 1. (- 1) ^ i * ?a i}"
    by blast
  then show "(\<Sum>i<2 * n. (- 1) ^ i * ?a i) \<le> arctan x" "arctan x \<le> (\<Sum>i<2 * n + 1. (- 1) ^ i * ?a i)"
    by (simp_all add: arctan_series [OF abs])
qed

lemma sum_12: "(\<Sum>i<12. f (i::nat)) = f 0 + f 1 + f 2 + f 3 + f 4 + f 5 + f 6 + f 7 + f 8 + f 9 + f 10 + (f 11 :: real)"
  by (simp add: eval_nat_numeral)

lemma sum_13: "(\<Sum>i<13. f (i::nat)) = f 0 + f 1 + f 2 + f 3 + f 4 + f 5 + f 6 + f 7 + f 8 + f 9 + f 10 + f 11 + (f 12 :: real)"
  by (simp add: eval_nat_numeral)

lemma sum_4: "(\<Sum>i<4. f (i::nat)) = f 0 + f 1 + f 2 + (f 3 :: real)"
  by (simp add: eval_nat_numeral)

lemma sum_5: "(\<Sum>i<5. f (i::nat)) = f 0 + f 1 + f 2 + f 3 + (f 4 :: real)"
  by (simp add: eval_nat_numeral)

lemma pi_double:
  "884279719003555 / 281474976710656 < pi"
  "pi < 884279719003555 / 281474976710656 + 1 / 2 ^ 52"
proof -
  let ?t = "\<lambda>x i. (- 1) ^ i * (1 / real (i * 2 + 1) * x ^ (i * 2 + 1))"
  have a: "(\<Sum>i<12. ?t (1 / 5) i) \<le> arctan (1 / 5)" "arctan (1 / 5) \<le> (\<Sum>i<13. ?t (1 / 5) i)"
    using arctan_brackets [of "1 / 5" 6] by simp_all
  have b: "(\<Sum>i<4. ?t (1 / 239) i) \<le> arctan (1 / 239)" "arctan (1 / 239) \<le> (\<Sum>i<5. ?t (1 / 239) i)"
    using arctan_brackets [of "1 / 239" 2] by simp_all
  have p: "pi = 16 * arctan (1 / 5) - 4 * arctan (1 / 239)"
    using machin by simp
  have "884279719003555 / 281474976710656 < 16 * (\<Sum>i<12. ?t (1 / 5) i) - 4 * (\<Sum>i<5. ?t (1 / 239) i)"
    unfolding sum_12 sum_5 by (simp add: power_divide)
  also have "\<dots> \<le> pi" unfolding p using a(1) b(2) by linarith
  finally show "884279719003555 / 281474976710656 < pi" .
  have "pi \<le> 16 * (\<Sum>i<13. ?t (1 / 5) i) - 4 * (\<Sum>i<4. ?t (1 / 239) i)"
    unfolding p using a(2) b(1) by linarith
  also have "\<dots> < 884279719003555 / 281474976710656 + 1 / 2 ^ 52"
    unfolding sum_13 sum_4 by (simp add: power_divide)
  finally show "pi < 884279719003555 / 281474976710656 + 1 / 2 ^ 52" .
qed

text \<open>
  The model on known values of binary32: the nearest \<^verbatim>\<open>float\<close> to one third; \<open>2^24 + 1\<close>,
  halfway between two values, goes to the even one; the largest finite value, and the
  first number that rounds to infinity; half the least positive value goes to zero, and
  keeps the sign; \<open>0 * \<infinity>\<close> is not a number, and \<open>-0.0 == 0.0\<close>.
\<close>

lemma binary32_examples:
  "round_to binary32 False (1 / 3) = Fin False (11184811 / 33554432)"
  "fp_of_int binary32 16777217 = Fin False 16777216"
  "fp_of_int binary32 16777219 = Fin False 16777220"
  "round_to binary32 False 340282346638528859811704183484516925440
     = Fin False 340282346638528859811704183484516925440"
  "round_to binary32 False 340282356779733661637539395458142568448 = Infty False"
  "round_to binary32 True (1 / 2 ^ 150) = Fin True 0"
  "(0::fp) * Infty False = NaN"
  "fp_eq (Fin True 0) 0"
  by code_simp+

subsection \<open>The identity matrix as a factor\<close>

lemma elem_of_member:
  assumes "Mat4_inv m" "x \<in> set (values m)"
  obtains k j where "0 \<le> k" "k < 4" "0 \<le> j" "j < 4" "elem m k j = x"
proof -
  from assms(2) obtain n where n: "n < length (values m)" "values m ! n = x"
    by (auto simp: in_set_conv_nth)
  with assms(1) have n16: "n < 16" by (simp add: Mat4_inv_def)
  define k j where "k = int n div 4" and "j = int n mod 4"
  have "k * 4 + j = int n" by (simp add: k_def j_def)
  then have "elem m k j = x" by (simp add: elem_def n)
  moreover have "0 \<le> k" "k < 4" "0 \<le> j" "j < 4" using n16 by (simp_all add: k_def j_def)
  ultimately show thesis using that by blast
qed

lemma identity_mul_not_finite:
  assumes idm: "idm = \<lparr>values = [1, 0, 0, 0, 0, 1, 0, 0, 0, 0, 1, 0, 0, 0, 0, 1 :: fp], nR = 4, nC = 4\<rparr>"
    and m: "m = \<lparr>values = [a0, a1, a2, a3, a4, a5, a6, a7, a8, a9, a10, a11, a12, a13, a14, a15],
             nR = 4, nC = 4\<rparr>"
    and "0 \<le> k" "k < 4" "0 \<le> j" "j < 4" "\<not> is_finite (elem m k j)"
  shows "elem (the (mul idm m)) ((k + 1) mod 4) j = NaN"
    "elem (the (mul m idm)) k ((j + 1) mod 4) = NaN"
  using in_range_4 [OF assms(3,4)] in_range_4 [OF assms(5,6)] assms(7)
  unfolding idm m mul_explicit
  by (auto simp: elem_def zero_times_not_finite)

text \<open>
  C5, as the code has it. Let \<open>M\<close> be a well-formed matrix of \<^verbatim>\<open>float\<close> values and \<open>I\<close> the
  default-constructed identity matrix; both products \<open>I * M\<close> and \<open>M * I\<close> are returned.
  If all 16 elements of \<open>M\<close> are finite, every element of either product is the element
  of \<open>M\<close> at the same place, but for a \<open>-0.0\<close>, which comes back as \<open>+0.0\<close>; so the products
  compare equal to \<open>M\<close> element by element under the comparison \<^verbatim>\<open>==\<close> of \<^verbatim>\<open>float\<close>. If some
  element of \<open>M\<close> is an infinity or a NaN, each of the two products has an element that
  does not compare equal to the element of \<open>M\<close> at the same place.
\<close>

theorem identity_mul_finite:
  fixes m :: "fp Mat4"
  assumes "Mat4_inv m" "\<forall>x\<in>set (values m). is_float x"
  shows "\<exists>idm l r. Mat4_init IDENTITY = Some idm \<and> mul idm m = Some l \<and> mul m idm = Some r \<and>
           ((\<forall>x\<in>set (values m). is_finite x) \<longrightarrow>
              (\<forall>i j. 0 \<le> i \<and> i < 4 \<and> 0 \<le> j \<and> j < 4 \<longrightarrow>
                 elem l i j = pos_zero (elem m i j) \<and> elem r i j = pos_zero (elem m i j) \<and>
                 fp_eq (elem l i j) (elem m i j) \<and> fp_eq (elem r i j) (elem m i j))) \<and>
           (\<not> (\<forall>x\<in>set (values m). is_finite x) \<longrightarrow>
              (\<exists>i j. 0 \<le> i \<and> i < 4 \<and> 0 \<le> j \<and> j < 4 \<and> \<not> fp_eq (elem l i j) (elem m i j)) \<and>
              (\<exists>i j. 0 \<le> i \<and> i < 4 \<and> 0 \<le> j \<and> j < 4 \<and> \<not> fp_eq (elem r i j) (elem m i j)))"
proof -
  from assms(1) obtain a0 a1 a2 a3 a4 a5 a6 a7 a8 a9 a10 a11 a12 a13 a14 a15 where
    m: "m = \<lparr>values = [a0, a1, a2, a3, a4, a5, a6, a7, a8, a9, a10, a11, a12, a13, a14, a15],
             nR = 4, nC = 4\<rparr>"
    by (rule Mat4_inv_cases)
  define idm :: "fp Mat4" where
    "idm = \<lparr>values = [1, 0, 0, 0, 0, 1, 0, 0, 0, 0, 1, 0, 0, 0, 0, 1], nR = 4, nC = 4\<rparr>"
  have 1: "Mat4_init IDENTITY = Some idm"
    by (simp add: idm_def setIdentity_resized)
  obtain l where l: "mul idm m = Some l"
    unfolding idm_def m mul_explicit by blast
  obtain r where r: "mul m idm = Some r"
    unfolding idm_def m mul_explicit by blast
  have lv: "l = the (mul idm m)" and rv: "r = the (mul m idm)"
    using l r by simp_all
  have finite: "elem l i j = pos_zero (elem m i j) \<and> elem r i j = pos_zero (elem m i j) \<and>
      fp_eq (elem l i j) (elem m i j) \<and> fp_eq (elem r i j) (elem m i j)"
    if all: "\<forall>x\<in>set (values m). is_finite x" and ij: "0 \<le> i \<and> i < 4 \<and> 0 \<le> j \<and> j < 4" for i j
  proof -
    from all assms(2) have fin: "fin_float a0" "fin_float a1" "fin_float a2" "fin_float a3"
      "fin_float a4" "fin_float a5" "fin_float a6" "fin_float a7"
      "fin_float a8" "fin_float a9" "fin_float a10" "fin_float a11"
      "fin_float a12" "fin_float a13" "fin_float a14" "fin_float a15"
      by (simp_all add: m fin_float_def)
    from ij have i: "i = 0 \<or> i = 1 \<or> i = 2 \<or> i = 3" and j: "j = 0 \<or> j = 1 \<or> j = 2 \<or> j = 3"
      by (simp_all add: in_range_4)
    have fe: "fin_float (elem m i j)"
      using i j fin by (auto simp: m elem_def)
    have left: "elem l i j = pos_zero (elem m i j)"
      using i j fin unfolding lv idm_def m mul_explicit
      by (auto simp: elem_def one_times zero_times
          exact_row_0 exact_row_1 exact_row_2 exact_row_3)
    have right: "elem r i j = pos_zero (elem m i j)"
      using i j fin unfolding rv idm_def m mul_explicit
      by (auto simp: elem_def times_one times_zero
          exact_row_0 exact_row_1 exact_row_2 exact_row_3)
    from left right pos_zero_eq [OF fe] show ?thesis by simp
  qed
  have infinite: "(\<exists>i j. 0 \<le> i \<and> i < 4 \<and> 0 \<le> j \<and> j < 4 \<and> \<not> fp_eq (elem l i j) (elem m i j)) \<and>
      (\<exists>i j. 0 \<le> i \<and> i < 4 \<and> 0 \<le> j \<and> j < 4 \<and> \<not> fp_eq (elem r i j) (elem m i j))"
    if "\<not> (\<forall>x\<in>set (values m). is_finite x)"
  proof -
    from that obtain x where x: "x \<in> set (values m)" "\<not> is_finite x" by blast
    from assms(1) x(1) obtain k j where kj: "0 \<le> k" "k < 4" "0 \<le> j" "j < 4" "elem m k j = x"
      by (rule elem_of_member)
    from kj x(2) have nf: "\<not> is_finite (elem m k j)" by simp
    note nan = identity_mul_not_finite [OF idm_def m kj(1-4) nf]
    have "\<not> fp_eq (elem l ((k + 1) mod 4) j) (elem m ((k + 1) mod 4) j)"
      "\<not> fp_eq (elem r k ((j + 1) mod 4)) (elem m k ((j + 1) mod 4))"
      by (simp_all add: lv rv nan)
    moreover have "0 \<le> (k + 1) mod 4" "(k + 1) mod 4 < 4" "0 \<le> (j + 1) mod 4" "(j + 1) mod 4 < 4"
      by simp_all
    ultimately show ?thesis using kj(1-4) by blast
  qed
  from 1 l r finite infinite show ?thesis by blast
qed

theorem identity_mul_finite_witness:
  "(\<exists>idm l r. Mat4_init IDENTITY = Some idm \<and>
      mul idm \<lparr>values = [Fin False 2, Fin True 0, 0, Fin False 5, 0, Fin False 3, 0, 0,
                           0, 0, Fin False (1 / 2), 0, 0, 0, 0, 1], nR = 4, nC = 4\<rparr> = Some l \<and>
      mul \<lparr>values = [Fin False 2, Fin True 0, 0, Fin False 5, 0, Fin False 3, 0, 0,
                       0, 0, Fin False (1 / 2), 0, 0, 0, 0, 1], nR = 4, nC = 4\<rparr> idm = Some r \<and>
      elem l 2 2 = Fin False (1 / 2) \<and> elem r 0 1 = Fin False 0 \<and> fp_eq (elem r 0 1) (Fin True 0)) \<and>
   (\<exists>idm l r. Mat4_init IDENTITY = Some idm \<and>
      mul idm \<lparr>values = [1, 0, 0, 0, Infty False, 1, 0, 0, 0, 0, 1, 0, 0, 0, 0, 1],
                 nR = 4, nC = 4\<rparr> = Some l \<and>
      mul \<lparr>values = [1, 0, 0, 0, Infty False, 1, 0, 0, 0, 0, 1, 0, 0, 0, 0, 1],
             nR = 4, nC = 4\<rparr> idm = Some r \<and>
      (\<exists>i j. 0 \<le> i \<and> i < 4 \<and> 0 \<le> j \<and> j < 4 \<and>
         \<not> fp_eq (elem l i j)
            (elem \<lparr>values = [1, 0, 0, 0, Infty False, 1, 0, 0, 0, 0, 1, 0, 0, 0, 0, 1],
                    nR = 4, nC = 4\<rparr> i j)) \<and>
      (\<exists>i j. 0 \<le> i \<and> i < 4 \<and> 0 \<le> j \<and> j < 4 \<and>
         \<not> fp_eq (elem r i j)
            (elem \<lparr>values = [1, 0, 0, 0, Infty False, 1, 0, 0, 0, 0, 1, 0, 0, 0, 0, 1],
                    nR = 4, nC = 4\<rparr> i j)))"
proof -
  let ?m = "\<lparr>values = [Fin False 2, Fin True 0, 0, Fin False 5, 0, Fin False 3, 0, 0,
                        0, 0, Fin False (1 / 2), 0, 0, 0, 0, 1], nR = 4, nC = 4\<rparr>"
  let ?n = "\<lparr>values = [1, 0, 0, 0, Infty False, 1, 0, 0, 0, 0, 1, 0, 0, 0, 0, 1 :: fp],
             nR = 4, nC = 4\<rparr>"
  have inv: "Mat4_inv ?m" "Mat4_inv ?n" by (simp_all add: Mat4_inv_def)
  have flo: "\<forall>x\<in>set (values ?m). is_float x" "\<forall>x\<in>set (values ?n). is_float x" by code_simp+
  have fin: "\<forall>x\<in>set (values ?m). is_finite x" by code_simp
  have inf: "\<not> (\<forall>x\<in>set (values ?n). is_finite x)" by simp
  from identity_mul_finite [OF inv(1) flo(1)] fin obtain idm l r where
    p: "Mat4_init IDENTITY = Some idm" "mul idm ?m = Some l" "mul ?m idm = Some r"
    and e: "\<forall>i j. 0 \<le> i \<and> i < 4 \<and> 0 \<le> j \<and> j < 4 \<longrightarrow>
              elem l i j = pos_zero (elem ?m i j) \<and> elem r i j = pos_zero (elem ?m i j) \<and>
              fp_eq (elem l i j) (elem ?m i j) \<and> fp_eq (elem r i j) (elem ?m i j)"
    by blast
  from e [rule_format, of 2 2] e [rule_format, of 0 1]
  have "elem l 2 2 = Fin False (1 / 2)" "elem r 0 1 = Fin False 0" "fp_eq (elem r 0 1) (Fin True 0)"
    by (simp_all add: elem_def pos_zero_def signed_def)
  with p have 1: "\<exists>idm l r. Mat4_init IDENTITY = Some idm \<and> mul idm ?m = Some l \<and>
      mul ?m idm = Some r \<and> elem l 2 2 = Fin False (1 / 2) \<and> elem r 0 1 = Fin False 0 \<and>
      fp_eq (elem r 0 1) (Fin True 0)"
    by blast
  from identity_mul_finite [OF inv(2) flo(2)] inf
  have 2: "\<exists>idm l r. Mat4_init IDENTITY = Some idm \<and> mul idm ?n = Some l \<and> mul ?n idm = Some r \<and>
      (\<exists>i j. 0 \<le> i \<and> i < 4 \<and> 0 \<le> j \<and> j < 4 \<and> \<not> fp_eq (elem l i j) (elem ?n i j)) \<and>
      (\<exists>i j. 0 \<le> i \<and> i < 4 \<and> 0 \<le> j \<and> j < 4 \<and> \<not> fp_eq (elem r i j) (elem ?n i j))"
    by blast
  from 1 2 show ?thesis by (rule conjI)
qed

text \<open>
  The claim fails for a matrix with an infinite element. With \<open>M\<close> the identity matrix
  but for \<open>M[1][0] = +\<infinity>\<close>, the entry \<open>(I * M)[0][0]\<close> is
  \<open>0 + 1 * 1 + 0 * \<infinity> + 0 * 0 + 0 * 0\<close>, and \<open>0 * \<infinity>\<close> is not a number: the entry
  is NaN, where \<open>M[0][0]\<close> is 1.
\<close>

theorem identity_mul_infinite:
  "Mat4_init IDENTITY =
     Some \<lparr>values = [1, 0, 0, 0, 0, 1, 0, 0, 0, 0, 1, 0, 0, 0, 0, 1 :: fp], nR = 4, nC = 4\<rparr> \<and>
   mul \<lparr>values = [1, 0, 0, 0, 0, 1, 0, 0, 0, 0, 1, 0, 0, 0, 0, 1], nR = 4, nC = 4\<rparr>
       \<lparr>values = [1, 0, 0, 0, Infty False, 1, 0, 0, 0, 0, 1, 0, 0, 0, 0, 1], nR = 4, nC = 4\<rparr>
     = Some \<lparr>values = [NaN, 0, 0, 0, Infty False, 1, 0, 0, NaN, 0, 1, 0, NaN, 0, 0, 1],
             nR = 4, nC = 4\<rparr> \<and>
   \<not> fp_eq NaN 1"
  by code_simp

subsection \<open>The uniform fill\<close>

lemma setOnes_resized:
  "setOnes (resized 4 4 :: 'a::{zero,one} Mat4) =
     Some \<lparr>values = [1, 1, 1, 1, 1, 1, 1, 1, 1, 1, 1, 1, 1, 1, 1, 1], nR = 4, nC = 4\<rparr>"
  by (simp add: setOnes_def resized_def for_upto_4 store_def vec_write_def numeral_eq_Suc)

lemma setZeros_resized:
  "setZeros (resized 4 4 :: 'a::zero Mat4) =
     Some \<lparr>values = [0, 0, 0, 0, 0, 0, 0, 0, 0, 0, 0, 0, 0, 0, 0, 0], nR = 4, nC = 4\<rparr>"
  by (simp add: setZeros_def resized_def for_upto_4 store_def vec_write_def numeral_eq_Suc)

lemma setUniform_explicit:
  "setUniform RM low high
     (\<lparr>values = [a0, a1, a2, a3, a4, a5, a6, a7, a8, a9, a10, a11, a12, a13, a14, a15], nR = 4, nC = 4\<rparr>, g)
   = Some (\<lparr>values =
       [low + unit_random RM (g 0) * (high - low), low + unit_random RM (g 1) * (high - low),
        low + unit_random RM (g 2) * (high - low), low + unit_random RM (g 3) * (high - low),
        low + unit_random RM (g 4) * (high - low), low + unit_random RM (g 5) * (high - low),
        low + unit_random RM (g 6) * (high - low), low + unit_random RM (g 7) * (high - low),
        low + unit_random RM (g 8) * (high - low), low + unit_random RM (g 9) * (high - low),
        low + unit_random RM (g 10) * (high - low), low + unit_random RM (g 11) * (high - low),
        low + unit_random RM (g 12) * (high - low), low + unit_random RM (g 13) * (high - low),
        low + unit_random RM (g 14) * (high - low), low + unit_random RM (g 15) * (high - low)],
       nR = 4, nC = 4\<rparr>, \<lambda>n. g (n + 16))"
  by (simp add: setUniform_def for_upto_4 store_def vec_write_def rand_def Let_def eval_nat_numeral)

lemma unit_random_fp_bounds:
  assumes "32767 \<le> RAND_MAX" "RAND_MAX \<le> 2147483647" "0 \<le> r" "r \<le> RAND_MAX"
  shows "fp_le 0 (unit_random RAND_MAX r) \<and> fp_le (unit_random RAND_MAX r) 1"
  using unit_random_bounds [OF assms] by (auto simp: zero_fp_def one_fp_def signed_def)

text \<open>
  C3, as the code has it. For a well-formed matrix and a generator whose every output \<open>r\<close>
  lies in \<open>[0, RAND_MAX]\<close>, \<open>setUniform(low, high)\<close> succeeds, draws 16 numbers, one for
  each element in row-major order, and sets the element to \<open>low + u * (high - low)\<close>,
  computed in \<^verbatim>\<open>float\<close>, where \<open>u\<close> is the quotient \<open>(float) r / (float) RAND_MAX\<close>: the
  two numbers converted to \<^verbatim>\<open>float\<close>, divided, and the quotient rounded. This \<open>u\<close> lies in
  the closed interval \<open>[0, 1]\<close>; it is 0 when \<open>r = 0\<close> and 1 when \<open>r = RAND_MAX\<close>. When
  \<open>low\<close> and \<open>high\<close> are finite values of \<^verbatim>\<open>float\<close> with \<open>low \<le> high\<close> and the difference
  \<open>high - low\<close> does not overflow, the element is at least \<open>low\<close> and at most
  \<open>low + (high - low)\<close>, the value it takes at \<open>u = 1\<close>.
\<close>

theorem setUniform_elements:
  assumes "Mat4_inv m" "32767 \<le> RAND_MAX" "RAND_MAX \<le> 2147483647"
    and g: "\<forall>n. 0 \<le> g n \<and> g n \<le> RAND_MAX"
  shows "\<exists>m' g'. setUniform RAND_MAX low high (m, g) = Some (m', g') \<and> Mat4_inv m' \<and>
           (\<forall>n. g' n = g (n + 16)) \<and>
           (\<forall>i j. 0 \<le> i \<and> i < 4 \<and> 0 \<le> j \<and> j < 4 \<longrightarrow>
              (\<exists>r u. r = g (nat (i * 4 + j)) \<and>
                 u = fp_div binary32 (fp_of_int binary32 r) (fp_of_int binary32 RAND_MAX) \<and>
                 u = Fin False (round_mag binary32
                       (round_mag binary32 (of_int r) / round_mag binary32 (of_int RAND_MAX))) \<and>
                 fp_le 0 u \<and> fp_le u 1 \<and> (r = 0 \<longrightarrow> u = 0) \<and> (r = RAND_MAX \<longrightarrow> u = 1) \<and>
                 elem m' i j = low + u * (high - low) \<and>
                 (is_float low \<and> is_finite low \<and> is_float high \<and> is_finite high \<and>
                  fp_le low high \<and> is_finite (high - low) \<longrightarrow>
                    fp_le low (elem m' i j) \<and> fp_le (elem m' i j) (low + (high - low)))))"
proof -
  from assms(1) obtain a0 a1 a2 a3 a4 a5 a6 a7 a8 a9 a10 a11 a12 a13 a14 a15 where
    m: "m = \<lparr>values = [a0, a1, a2, a3, a4, a5, a6, a7, a8, a9, a10, a11, a12, a13, a14, a15],
             nR = 4, nC = 4\<rparr>"
    by (rule Mat4_inv_cases)
  obtain m' g' where st: "setUniform RAND_MAX low high (m, g) = Some (m', g')"
    unfolding m setUniform_explicit by blast
  have m': "m' = fst (the (setUniform RAND_MAX low high (m, g)))"
    and g': "g' = snd (the (setUniform RAND_MAX low high (m, g)))"
    using st by simp_all
  have inv: "Mat4_inv m'"
    unfolding m' m setUniform_explicit by (simp add: Mat4_inv_def)
  have rest: "g' n = g (n + 16)" for n
    unfolding g' m setUniform_explicit by simp
  have entry: "elem m' i j = low + unit_random RAND_MAX (g (nat (i * 4 + j))) * (high - low)"
    if "0 \<le> i \<and> i < 4 \<and> 0 \<le> j \<and> j < 4" for i j
  proof -
    from that have "i = 0 \<or> i = 1 \<or> i = 2 \<or> i = 3" "j = 0 \<or> j = 1 \<or> j = 2 \<or> j = 3"
      by (simp_all add: in_range_4)
    then show ?thesis
      unfolding m' m setUniform_explicit by (auto simp: elem_def)
  qed
  have unit: "u = Fin False (round_mag binary32
                 (round_mag binary32 (of_int r) / round_mag binary32 (of_int RAND_MAX))) \<and>
      fp_le 0 u \<and> fp_le u 1 \<and> (r = 0 \<longrightarrow> u = 0) \<and> (r = RAND_MAX \<longrightarrow> u = 1) \<and>
      (is_float low \<and> is_finite low \<and> is_float high \<and> is_finite high \<and>
       fp_le low high \<and> is_finite (high - low) \<longrightarrow>
         fp_le low (low + u * (high - low)) \<and> fp_le (low + u * (high - low)) (low + (high - low)))"
    if r: "r = g n" and u: "u = fp_div binary32 (fp_of_int binary32 r) (fp_of_int binary32 RAND_MAX)"
    for r u n
  proof -
    have range: "0 \<le> r" "r \<le> RAND_MAX" using g r by simp_all
    have ur: "u = unit_random RAND_MAX r" by (simp add: u unit_random_def)
    note hyps = assms(2,3) range
    from unit_random_bounds [OF hyps] obtain q where
      q: "u = Fin False q" "0 \<le> q" "q \<le> 1" unfolding ur by blast
    have bounds: "fp_le low (low + u * (high - low)) \<and> fp_le (low + u * (high - low)) (low + (high - low))"
      if "is_float low \<and> is_finite low \<and> is_float high \<and> is_finite high \<and>
          fp_le low high \<and> is_finite (high - low)"
      unfolding q(1) using that q(2,3) by (intro uniform_bounds) (simp_all add: fin_float_def)
    from unit_random_value [OF hyps] unit_random_fp_bounds [OF hyps] unit_random_ends [OF assms(2,3)]
      bounds
    show ?thesis unfolding ur by blast
  qed
  have main: "\<exists>r u. r = g (nat (i * 4 + j)) \<and>
                 u = fp_div binary32 (fp_of_int binary32 r) (fp_of_int binary32 RAND_MAX) \<and>
                 u = Fin False (round_mag binary32
                       (round_mag binary32 (of_int r) / round_mag binary32 (of_int RAND_MAX))) \<and>
                 fp_le 0 u \<and> fp_le u 1 \<and> (r = 0 \<longrightarrow> u = 0) \<and> (r = RAND_MAX \<longrightarrow> u = 1) \<and>
                 elem m' i j = low + u * (high - low) \<and>
                 (is_float low \<and> is_finite low \<and> is_float high \<and> is_finite high \<and>
                  fp_le low high \<and> is_finite (high - low) \<longrightarrow>
                    fp_le low (elem m' i j) \<and> fp_le (elem m' i j) (low + (high - low)))"
    if ij: "0 \<le> i \<and> i < 4 \<and> 0 \<le> j \<and> j < 4" for i j
  proof -
    define r where "r = g (nat (i * 4 + j))"
    define u where "u = fp_div binary32 (fp_of_int binary32 r) (fp_of_int binary32 RAND_MAX)"
    have e: "elem m' i j = low + u * (high - low)"
      using entry [OF ij] by (simp add: u_def r_def unit_random_def)
    from unit [OF r_def u_def] show ?thesis
      unfolding e using r_def u_def by blast
  qed
  from st inv rest main show ?thesis by blast
qed

lemma unit_random_max: "unit_random 2147483647 2147483647 = Fin False 1"
  by code_simp

lemma float_0_plus_1: "(0::fp) + 1 * (1 - 0) = 1"
  unfolding zero_fp_def one_fp_def plus_fp_def times_fp_def minus_fp_def by code_simp

theorem setUniform_elements_witness:
  "\<exists>z m' g'. Mat4_init ZEROS = Some z \<and>
     setUniform 2147483647 0 1
       (z, \<lambda>n. if n = 0 then 0 else if n = 1 then 2147483647 else 1073741824) = Some (m', g') \<and>
     elem m' 0 0 = 0 \<and> elem m' 0 1 = 1 \<and> elem m' 0 2 = Fin False (1 / 2) \<and>
     fp_le 0 (elem m' 0 1) \<and> fp_le (elem m' 0 1) (0 + (1 - 0)) \<and>
     g' 1 = 1073741824"
proof -
  define z :: "fp Mat4" where "z = \<lparr>values = replicate 16 0, nR = 4, nC = 4\<rparr>"
  let ?g = "\<lambda>n::nat. if n = 0 then 0 else if n = 1 then 2147483647 else (1073741824::int)"
  have z: "Mat4_init ZEROS = Some z"
    by (simp add: z_def setZeros_resized eval_nat_numeral)
  have inv: "Mat4_inv z" by (simp add: z_def Mat4_inv_def)
  have g: "\<forall>n. 0 \<le> ?g n \<and> ?g n \<le> 2147483647" by simp
  have ends: "is_float (0::fp) \<and> is_finite (0::fp) \<and> is_float (1::fp) \<and> is_finite (1::fp) \<and>
      fp_le 0 1 \<and> is_finite ((1::fp) - 0)"
    by code_simp
  have half: "(0::fp) + fp_div binary32 (fp_of_int binary32 1073741824)
      (fp_of_int binary32 2147483647) * (1 - 0) = Fin False (1 / 2)"
    unfolding zero_fp_def one_fp_def plus_fp_def times_fp_def minus_fp_def by code_simp
  have none: "(0::fp) + 0 * (1 - 0) = 0"
    unfolding zero_fp_def one_fp_def plus_fp_def times_fp_def minus_fp_def by code_simp
  from setUniform_elements [OF inv _ _ g, of 0 1] obtain m' g' where
    st: "setUniform 2147483647 0 1 (z, ?g) = Some (m', g')" and rest: "\<forall>n. g' n = ?g (n + 16)"
    and entries: "\<forall>i j. 0 \<le> i \<and> i < 4 \<and> 0 \<le> j \<and> j < 4 \<longrightarrow>
              (\<exists>r u. r = ?g (nat (i * 4 + j)) \<and>
                 u = fp_div binary32 (fp_of_int binary32 r) (fp_of_int binary32 2147483647) \<and>
                 u = Fin False (round_mag binary32
                       (round_mag binary32 (of_int r) / round_mag binary32 (of_int 2147483647))) \<and>
                 fp_le 0 u \<and> fp_le u 1 \<and> (r = 0 \<longrightarrow> u = 0) \<and> (r = 2147483647 \<longrightarrow> u = 1) \<and>
                 elem m' i j = 0 + u * (1 - 0) \<and>
                 (is_float (0::fp) \<and> is_finite (0::fp) \<and> is_float (1::fp) \<and> is_finite (1::fp) \<and>
                  fp_le 0 1 \<and> is_finite ((1::fp) - 0) \<longrightarrow>
                    fp_le 0 (elem m' i j) \<and> fp_le (elem m' i j) (0 + (1 - 0))))"
    by auto
  from entries [rule_format, of 0 0]
  have "elem m' 0 0 = 0 + 0 * (1 - 0)" by auto
  then have e0: "elem m' 0 0 = 0" by (simp only: none)
  from entries [rule_format, of 0 1] ends
  have "elem m' 0 1 = 0 + 1 * (1 - 0)" "fp_le 0 (elem m' 0 1)" "fp_le (elem m' 0 1) (0 + (1 - 0))"
    by auto
  then have e1: "elem m' 0 1 = 1" "fp_le 0 (elem m' 0 1)" "fp_le (elem m' 0 1) (0 + (1 - 0))"
    by (simp_all add: float_0_plus_1)
  from entries [rule_format, of 0 2]
  have "elem m' 0 2 = 0 + fp_div binary32 (fp_of_int binary32 1073741824)
      (fp_of_int binary32 2147483647) * (1 - 0)" by auto
  then have e2: "elem m' 0 2 = Fin False (1 / 2)" by (simp only: half)
  from rest have "g' 1 = 1073741824" by simp
  with e0 e1 e2 show ?thesis using z st by blast
qed

text \<open>
  The claim fails at the upper end: \<open>rand()\<close> can return \<open>RAND_MAX\<close>, and then \<open>u\<close> is 1.
  With \<open>low = 0\<close>, \<open>high = 1\<close> and a generator that returns \<open>RAND_MAX\<close>, every element is
  \<open>high\<close> itself, which is not below \<open>high\<close>.
\<close>

theorem setUniform_reaches_high:
  "fp_le 0 1 \<and>
   Mat4_init ZEROS =
     Some \<lparr>values = [0, 0, 0, 0, 0, 0, 0, 0, 0, 0, 0, 0, 0, 0, 0, 0 :: fp], nR = 4, nC = 4\<rparr> \<and>
   map_option fst
     (setUniform 2147483647 0 1
        (\<lparr>values = [0, 0, 0, 0, 0, 0, 0, 0, 0, 0, 0, 0, 0, 0, 0, 0], nR = 4, nC = 4\<rparr>,
         constant_rand 2147483647))
     = Some \<lparr>values = [1, 1, 1, 1, 1, 1, 1, 1, 1, 1, 1, 1, 1, 1, 1, 1], nR = 4, nC = 4\<rparr> \<and>
   \<not> fp_lt 1 1"
proof -
  have "fp_le 0 1" "\<not> fp_lt 1 1"
    by (simp_all add: fp_lt_def zero_fp_def one_fp_def signed_def)
  then show ?thesis
    by (simp add: setZeros_resized setUniform_explicit constant_rand_def unit_random_max
        float_0_plus_1 flip: one_fp_def)
qed

text \<open>
  Nor does the closed interval hold in general: the sum and the difference are rounded.
  With \<open>low = -(1 - 3/2^24)\<close>, \<open>high = 1 + 3/2^23\<close> and \<open>u = 1\<close>, the difference
  \<open>high - low\<close> rounds up to \<open>2 + 2^-22\<close> and the element is \<open>1 + 4/2^23\<close>, above \<open>high\<close>.
\<close>

lemma setUniform_can_exceed_high:
  "is_float (Fin True (16777213 / 16777216)) \<and> is_float (Fin False (8388611 / 8388608)) \<and>
   fp_le (Fin True (16777213 / 16777216)) (Fin False (8388611 / 8388608)) \<and>
   Fin True (16777213 / 16777216) + unit_random 2147483647 2147483647 *
       (Fin False (8388611 / 8388608) - Fin True (16777213 / 16777216))
     = Fin False (2097153 / 2097152) \<and>
   fp_lt (Fin False (8388611 / 8388608)) (Fin False (2097153 / 2097152))"
  by code_simp

subsection \<open>Rotation\<close>

lemma round_to_zero: "round_to fmt s 0 = Fin s 0"
  by (simp add: round_to_def not_le)

lemma float_180: "fp_of_int binary32 180 = Fin False 180"
  by code_simp

lemma round_mag_64_4: "round_mag binary64 4 = 4"
  by code_simp

lemma round_mag_64_1: "round_mag binary64 1 = 1"
  by code_simp

lemma M_PI_finite: "\<exists>r. M_PI = Fin False r"
proof -
  have "round_mag binary64 (31415926535897932384626433832795 / 10 ^ 31) \<le> round_mag binary64 4"
    by (intro round_mag_mono) (simp_all add: binary64_def)
  also have "\<dots> < 2 powi emax binary64"
    unfolding round_mag_64_4 by (simp add: binary64_def)
  finally show ?thesis
    by (simp add: M_PI_def round_to_def)
qed

lemma radians_0: "radians 0 = 0"
proof -
  obtain r where r: "M_PI = Fin False r" using M_PI_finite by blast
  show ?thesis
    by (simp add: radians_def zero_fp_def float_180 to_double_def round_to_zero r)
qed

lemma to_float_values: "to_float 1 = 1" "to_float (fp_neg 0) = Fin True 0" "to_float 0 = 0"
  by code_simp+

lemma rotation_explicit:
  "Mat4_rotation cos_d sin_d a =
     Some \<lparr>values = [to_float (cos_d (radians a)), to_float (fp_neg (sin_d (radians a))), 0, 0,
                      to_float (sin_d (radians a)), to_float (cos_d (radians a)), 0, 0,
                      0, 0, 1, 0, 0, 0, 0, 1], nR = 4, nC = 4\<rparr>"
  by (simp add: Mat4_rotation_def setIdentity_resized store_def vec_write_def)

lemma round_mag_M_PI:
  "round_mag binary64 (31415926535897932384626433832795 / 10 ^ 31)
     = 884279719003555 / 281474976710656"
  by code_simp

lemma M_PI_value: "M_PI = Fin False (884279719003555 / 281474976710656)"
  unfolding M_PI_def round_to_def round_mag_M_PI by (simp add: binary64_def)

lemma M_PI_near_pi:
  "\<bar>real_of_rat (884279719003555 / 281474976710656) - pi\<bar> < 1 / 2 ^ 52"
  using pi_double by (simp add: of_rat_divide abs_less_iff)

lemma radians_finite:
  assumes "is_float (Fin s q)"
  shows "radians (Fin s q) =
           round_to binary64 s (round_mag binary32 (q / 180) * (884279719003555 / 281474976710656))"
proof -
  from assms have q: "0 \<le> q" "round_to binary32 s q = Fin s q" by simp_all
  have "q < 2 powi emax binary32"
    by (rule round_to_cases [of binary32 s q]) (use q float_magnitude [OF q(2)] in simp_all)
  moreover have "round_mag binary32 (q / 180) \<le> round_mag binary32 q"
    using q(1) by (intro round_mag_mono prec32) simp_all
  ultimately have "\<not> 2 powi emax binary32 \<le> round_mag binary32 (q / 180)"
    by (simp add: float_magnitude [OF q(2)])
  then have "fp_div binary32 (Fin s q) (fp_of_int binary32 180) = Fin s (round_mag binary32 (q / 180))"
    by (simp add: float_180 round_to_def)
  then show ?thesis
    by (simp add: radians_def to_double_def M_PI_value)
qed

lemma radians_180: "radians (Fin False 180) = M_PI"
proof -
  have f: "is_float (Fin False 180)" by code_simp
  have "round_mag binary64 (round_mag binary64 (31415926535897932384626433832795 / 10 ^ 31))
          = round_mag binary64 (31415926535897932384626433832795 / 10 ^ 31)"
    by (intro round_mag_idem) (simp_all add: binary64_def)
  then have "round_mag binary64 (884279719003555 / 281474976710656) = 884279719003555 / 281474976710656"
    by (simp only: round_mag_M_PI)
  then show ?thesis
    by (simp add: radians_finite [OF f] round_mag_values round_to_def M_PI_value) (simp add: binary64_def)
qed

lemma radians_minus_0: "radians (Fin True 0) = Fin True 0"
proof -
  have f: "is_float (Fin True 0)" by (simp add: round_to_0)
  show ?thesis by (simp add: radians_finite [OF f] round_to_zero)
qed

lemma radians_90: "radians (Fin False 90) = Fin False (884279719003555 / 562949953421312)"
proof -
  have f: "is_float (Fin False 90)" by code_simp
  have h: "round_mag binary32 (1 / 2) = 1 / 2" by code_simp
  have "round_mag binary64 (884279719003555 / 562949953421312) = 884279719003555 / 562949953421312"
    by code_simp
  then show ?thesis
    by (simp add: radians_finite [OF f] h round_to_def) (simp add: binary64_def)
qed

lemma radians_not_finite: "radians NaN = NaN" "radians (Infty s) = Infty s"
  by (simp_all add: radians_def float_180 to_double_def M_PI_value)

text \<open>
  C7, as the code has it. For every angle \<open>a\<close> in degrees the rotation constructor computes
  the angle in radians as \<open>\<theta> = a / 180 * M_PI\<close>: the quotient \<open>a / 180\<close> rounded to
  \<^verbatim>\<open>float\<close>, then the product with \<^verbatim>\<open>M_PI\<close> rounded to \<^verbatim>\<open>double\<close>, where \<^verbatim>\<open>M_PI\<close> is the
  \<^verbatim>\<open>double\<close> \<open>884279719003555 / 2^48\<close>, less than \<open>2^-52\<close> away from \<open>\<pi>\<close> (so 180 degrees
  give \<^verbatim>\<open>M_PI\<close> and 90 degrees give half of it). It produces the identity matrix with
  the elements at the offsets 0, 1, 4, 5 replaced: row 0 is \<open>(cos \<theta>, -sin \<theta>, 0, 0)\<close>,
  row 1 is \<open>(sin \<theta>, cos \<theta>, 0, 0)\<close>, each converted to \<^verbatim>\<open>float\<close>, rows 2 and 3 are those
  of the identity; this for whatever the library's \<open>cos\<close> and \<open>sin\<close> return. At the angle
  \<open>0.0\<close>, with \<open>cos 0 = 1\<close> and \<open>sin 0 = 0\<close> as the C standard requires, the matrix is
  \<open>1, -0.0, 0, 0, 0, 1, 0, \<dots>\<close>: every element compares equal (\<^verbatim>\<open>==\<close>) to that of the
  identity matrix, but the matrix is not the identity matrix, whose element at row 0,
  column 1 is \<open>+0.0\<close>. At the angle \<open>-0.0\<close> the same holds with the \<open>-0.0\<close> at row 1,
  column 0.
\<close>

theorem rotation_matrix:
  "\<exists>m idm. Mat4_rotation cos_d sin_d a = Some m \<and> Mat4_inv m \<and> Mat4_init IDENTITY = Some idm \<and>
     m = idm\<lparr>values := (values idm)
           [0 := to_float (cos_d (radians a)), 1 := to_float (fp_neg (sin_d (radians a))),
            4 := to_float (sin_d (radians a)), 5 := to_float (cos_d (radians a))]\<rparr> \<and>
     values m = [to_float (cos_d (radians a)), to_float (fp_neg (sin_d (radians a))), 0, 0,
                 to_float (sin_d (radians a)), to_float (cos_d (radians a)), 0, 0,
                 0, 0, 1, 0,
                 0, 0, 0, 1] \<and>
     M_PI = Fin False (884279719003555 / 281474976710656) \<and>
     \<bar>real_of_rat (884279719003555 / 281474976710656) - pi\<bar> < 1 / 2 ^ 52 \<and>
     (\<forall>s q. a = Fin s q \<and> is_float a \<longrightarrow>
        radians a = round_to binary64 s
          (round_mag binary32 (q / 180) * (884279719003555 / 281474976710656))) \<and>
     (a = NaN \<longrightarrow> radians a = NaN) \<and> (\<forall>s. a = Infty s \<longrightarrow> radians a = Infty s) \<and>
     radians (Fin False 180) = Fin False (884279719003555 / 281474976710656) \<and>
     radians (Fin False 90) = Fin False (884279719003555 / 562949953421312) \<and>
     (a = 0 \<and> cos_d 0 = 1 \<and> sin_d 0 = 0 \<longrightarrow>
        values m = [1, Fin True 0, 0, 0, 0, 1, 0, 0, 0, 0, 1, 0, 0, 0, 0, 1] \<and> m \<noteq> idm \<and>
        (\<forall>i j. 0 \<le> i \<and> i < 4 \<and> 0 \<le> j \<and> j < 4 \<longrightarrow> fp_eq (elem m i j) (elem idm i j))) \<and>
     (a = Fin True 0 \<and> cos_d (Fin True 0) = 1 \<and> sin_d (Fin True 0) = Fin True 0 \<longrightarrow>
        values m = [1, 0, 0, 0, Fin True 0, 1, 0, 0, 0, 0, 1, 0, 0, 0, 0, 1] \<and> m \<noteq> idm \<and>
        (\<forall>i j. 0 \<le> i \<and> i < 4 \<and> 0 \<le> j \<and> j < 4 \<longrightarrow> fp_eq (elem m i j) (elem idm i j)))"
proof -
  define m where "m = the (Mat4_rotation cos_d sin_d a)"
  define idm :: "fp Mat4" where "idm = the (Mat4_init IDENTITY)"
  have idv: "values idm = [1, 0, 0, 0, 0, 1, 0, 0, 0, 0, 1, 0, 0, 0, 0, 1]"
    by (simp add: idm_def setIdentity_resized)
  have 1: "Mat4_rotation cos_d sin_d a = Some m" "Mat4_inv m" "Mat4_init IDENTITY = Some idm"
    by (simp_all add: m_def idm_def rotation_explicit setIdentity_resized Mat4_inv_def)
  have 2: "m = idm\<lparr>values := (values idm)
           [0 := to_float (cos_d (radians a)), 1 := to_float (fp_neg (sin_d (radians a))),
            4 := to_float (sin_d (radians a)), 5 := to_float (cos_d (radians a))]\<rparr>"
    "values m = [to_float (cos_d (radians a)), to_float (fp_neg (sin_d (radians a))), 0, 0,
                 to_float (sin_d (radians a)), to_float (cos_d (radians a)), 0, 0,
                 0, 0, 1, 0, 0, 0, 0, 1]"
    by (simp_all add: m_def idm_def rotation_explicit setIdentity_resized)
  have 3: "radians a = round_to binary64 s
          (round_mag binary32 (q / 180) * (884279719003555 / 281474976710656))"
    if "a = Fin s q \<and> is_float a" for s q
  proof -
    from that have a: "a = Fin s q" and f: "is_float (Fin s q)" by auto
    show ?thesis unfolding a by (rule radians_finite [OF f])
  qed
  have 4: "a = NaN \<longrightarrow> radians a = NaN" "\<forall>s. a = Infty s \<longrightarrow> radians a = Infty s"
    by (simp_all add: radians_not_finite)
  have close: "fp_eq (elem m i j) (elem idm i j)"
    if "values m = [1, Fin True 0, 0, 0, 0, 1, 0, 0, 0, 0, 1, 0, 0, 0, 0, 1] \<or>
        values m = [1, 0, 0, 0, Fin True 0, 1, 0, 0, 0, 0, 1, 0, 0, 0, 0, 1]"
      "0 \<le> i \<and> i < 4 \<and> 0 \<le> j \<and> j < 4" for i j
  proof -
    from that(2) have "i = 0 \<or> i = 1 \<or> i = 2 \<or> i = 3" "j = 0 \<or> j = 1 \<or> j = 2 \<or> j = 3"
      by (simp_all add: in_range_4)
    with that(1) idv show ?thesis
      by (auto simp: elem_def zero_fp_def one_fp_def signed_def)
  qed
  have differ: "m \<noteq> idm"
    if "values m = [1, Fin True 0, 0, 0, 0, 1, 0, 0, 0, 0, 1, 0, 0, 0, 0, 1] \<or>
        values m = [1, 0, 0, 0, Fin True 0, 1, 0, 0, 0, 0, 1, 0, 0, 0, 0, 1]"
    using that idv by (auto simp: zero_fp_def)
  have plus: "values m = [1, Fin True 0, 0, 0, 0, 1, 0, 0, 0, 0, 1, 0, 0, 0, 0, 1]"
    if "a = 0 \<and> cos_d 0 = 1 \<and> sin_d 0 = 0"
    using that by (simp add: 2(2) radians_0 to_float_values)
  have minus: "values m = [1, 0, 0, 0, Fin True 0, 1, 0, 0, 0, 0, 1, 0, 0, 0, 0, 1]"
    if "a = Fin True 0 \<and> cos_d (Fin True 0) = 1 \<and> sin_d (Fin True 0) = Fin True 0"
    using that by (simp add: 2(2) radians_minus_0 to_float_values round_to_zero zero_fp_def)
  from 1 2 M_PI_value M_PI_near_pi 3 4 radians_180 [unfolded M_PI_value] radians_90
    plus minus close differ
  show ?thesis by blast
qed

theorem rotation_matrix_witness:
  "\<exists>m idm. Mat4_rotation (\<lambda>x. fp_sub binary64 1 (fp_mul binary64 x x)) (\<lambda>x. x) 0 = Some m \<and>
     Mat4_init IDENTITY = Some idm \<and> elem m 0 1 = Fin True 0 \<and>
     fp_eq (elem m 0 1) (elem idm 0 1) \<and> fp_eq (elem m 1 1) (elem idm 1 1) \<and> m \<noteq> idm \<and>
     radians 0 = round_to binary64 False
       (round_mag binary32 (0 / 180) * (884279719003555 / 281474976710656))"
proof -
  let ?c = "\<lambda>x. fp_sub binary64 1 (fp_mul binary64 x x)"
  have "round_to binary64 False 1 = Fin False 1"
    by (simp add: round_to_def round_mag_64_1) (simp add: binary64_def)
  then have c: "?c 0 = 1"
    by (simp add: zero_fp_def one_fp_def round_to_zero fp_sub_def round_signed_def signed_def)
  have f: "(0::fp) = Fin False 0 \<and> is_float (0::fp)"
    by (simp add: zero_fp_def round_to_0)
  from rotation_matrix [of ?c "\<lambda>x. x" 0] obtain m idm where
    m: "Mat4_rotation ?c (\<lambda>x. x) 0 = Some m" "Mat4_init IDENTITY = Some idm"
    and formula: "\<forall>s q. (0::fp) = Fin s q \<and> is_float (0::fp) \<longrightarrow>
        radians 0 = round_to binary64 s
          (round_mag binary32 (q / 180) * (884279719003555 / 281474976710656))"
    and imp: "0 = (0::fp) \<and> ?c 0 = 1 \<and> (0::fp) = 0 \<longrightarrow>
        values m = [1, Fin True 0, 0, 0, 0, 1, 0, 0, 0, 0, 1, 0, 0, 0, 0, 1] \<and> m \<noteq> idm \<and>
        (\<forall>i j. 0 \<le> i \<and> i < 4 \<and> 0 \<le> j \<and> j < 4 \<longrightarrow> fp_eq (elem m i j) (elem idm i j))"
    by blast
  from imp c have v: "values m = [1, Fin True 0, 0, 0, 0, 1, 0, 0, 0, 0, 1, 0, 0, 0, 0, 1]"
    and d: "m \<noteq> idm"
    and e: "\<forall>i j. 0 \<le> i \<and> i < 4 \<and> 0 \<le> j \<and> j < 4 \<longrightarrow> fp_eq (elem m i j) (elem idm i j)"
    by simp_all
  from e have "fp_eq (elem m 0 1) (elem idm 0 1)" "fp_eq (elem m 1 1) (elem idm 1 1)"
    by simp_all
  moreover from v have "elem m 0 1 = Fin True 0" by (simp add: elem_def)
  moreover from formula [rule_format, of False 0] f
  have "radians 0 = round_to binary64 False
       (round_mag binary32 (0 / 180) * (884279719003555 / 281474976710656))" by blast
  ultimately show ?thesis using m d by blast
qed

text \<open>
  The claim fails where it says that the angle 0 gives exactly the identity matrix: the
  element at row 0, column 1 is \<open>-sin 0 = -0.0\<close>, and the identity matrix has \<open>+0.0\<close>
  there.
\<close>

theorem rotation_zero_not_identity:
  "\<not> (\<forall>cos_d sin_d. cos_d 0 = 1 \<and> sin_d 0 = 0 \<longrightarrow>
         Mat4_rotation cos_d sin_d 0 = Mat4_init IDENTITY)"
proof
  assume all: "\<forall>cos_d sin_d. cos_d 0 = 1 \<and> sin_d 0 = 0 \<longrightarrow>
         Mat4_rotation cos_d sin_d 0 = Mat4_init IDENTITY"
  from all [rule_format, of "\<lambda>x. 1" "\<lambda>x. x"]
  have "Mat4_rotation (\<lambda>x. 1) (\<lambda>x. x) 0 = Mat4_init IDENTITY" by simp
  then have "Fin True 0 = (0::fp)"
    by (simp add: rotation_explicit setIdentity_resized radians_0 to_float_values)
  then show False by (simp add: zero_fp_def)
qed

subsection \<open>The invariant\<close>

lemma Mat4_init_inv: "\<exists>m. Mat4_init init = Some (m :: 'a::{zero,one} Mat4) \<and> Mat4_inv m"
  by (cases init) (simp_all add: setIdentity_resized setOnes_resized setZeros_resized Mat4_inv_def)

lemma Mat4_scale_inv: "\<exists>m. Mat4_scale sx sy sz = Some (m :: 'a::{zero,one} Mat4) \<and> Mat4_inv m"
  by (simp add: Mat4_scale_def setIdentity_resized store_def vec_write_def Mat4_inv_def)

lemma Mat4_translation_inv: "\<exists>m. Mat4_translation t = Some (m :: 'a::{zero,one} Mat4) \<and> Mat4_inv m"
  by (simp add: Mat4_translation_def setIdentity_resized store_def vec_write_def Mat4_inv_def)

lemma Mat4_rotation_inv: "\<exists>m. Mat4_rotation cos_d sin_d a = Some m \<and> Mat4_inv m"
  by (simp add: rotation_explicit Mat4_inv_def)

lemma assign_explicit:
  "assign \<lparr>values = [a0, a1, a2, a3, a4, a5, a6, a7, a8, a9, a10, a11, a12, a13, a14, a15],
            nR = 4, nC = 4\<rparr>
          \<lparr>values = [b0, b1, b2, b3, b4, b5, b6, b7, b8, b9, b10, b11, b12, b13, b14, b15],
            nR = 4, nC = 4\<rparr>
   = Some \<lparr>values = [b0, b1, b2, b3, b4, b5, b6, b7, b8, b9, b10, b11, b12, b13, b14, b15],
            nR = 4, nC = 4\<rparr>"
  by (simp add: assign_def for_upto_4 store_def vec_write_def load_def vec_read_def)

lemma assign_copies:
  assumes "Mat4_inv a" "Mat4_inv b"
  shows "assign a b = Some b"
proof -
  from assms(1) obtain a0 a1 a2 a3 a4 a5 a6 a7 a8 a9 a10 a11 a12 a13 a14 a15 where
    a: "a = \<lparr>values = [a0, a1, a2, a3, a4, a5, a6, a7, a8, a9, a10, a11, a12, a13, a14, a15],
             nR = 4, nC = 4\<rparr>"
    by (rule Mat4_inv_cases)
  from assms(2) obtain b0 b1 b2 b3 b4 b5 b6 b7 b8 b9 b10 b11 b12 b13 b14 b15 where
    b: "b = \<lparr>values = [b0, b1, b2, b3, b4, b5, b6, b7, b8, b9, b10, b11, b12, b13, b14, b15],
             nR = 4, nC = 4\<rparr>"
    by (rule Mat4_inv_cases)
  show ?thesis unfolding a b by (rule assign_explicit)
qed

lemma resized_inv: "Mat4_inv (resized 4 4)"
  by (simp add: resized_def Mat4_inv_def)

lemma Mat4_copy_copies:
  assumes "Mat4_inv a"
  shows "Mat4_copy a = Some a"
  using assms assign_copies [OF resized_inv assms] by (simp add: Mat4_copy_def Mat4_inv_def)

lemma setters_inv:
  fixes a :: "'a::{zero,one} Mat4"
  assumes "Mat4_inv a"
  shows "\<exists>m. setZeros a = Some m \<and> Mat4_inv m" "\<exists>m. setOnes a = Some m \<and> Mat4_inv m"
    "\<exists>m. setIdentity a = Some m \<and> Mat4_inv m"
  using assms
  by (auto elim!: Mat4_inv_cases
      simp: setZeros_def setOnes_def setIdentity_def for_upto_4 store_def vec_write_def Mat4_inv_def)

lemma elementwise_inv:
  fixes a b :: "'a::{zero,one,plus,minus,times} Mat4"
  assumes "Mat4_inv a" "Mat4_inv b"
  shows "\<exists>m. add a b = Some m \<and> Mat4_inv m" "\<exists>m. sub a b = Some m \<and> Mat4_inv m"
    "\<exists>m. hadamard a b = Some m \<and> Mat4_inv m" "\<exists>m. mul_scalar a c = Some m \<and> Mat4_inv m"
proof -
  from assms(1) obtain a0 a1 a2 a3 a4 a5 a6 a7 a8 a9 a10 a11 a12 a13 a14 a15 where
    a: "a = \<lparr>values = [a0, a1, a2, a3, a4, a5, a6, a7, a8, a9, a10, a11, a12, a13, a14, a15],
             nR = 4, nC = 4\<rparr>"
    by (rule Mat4_inv_cases)
  from assms(2) obtain b0 b1 b2 b3 b4 b5 b6 b7 b8 b9 b10 b11 b12 b13 b14 b15 where
    b: "b = \<lparr>values = [b0, b1, b2, b3, b4, b5, b6, b7, b8, b9, b10, b11, b12, b13, b14, b15],
             nR = 4, nC = 4\<rparr>"
    by (rule Mat4_inv_cases)
  show "\<exists>m. add a b = Some m \<and> Mat4_inv m"
    by (simp add: a b add_def setIdentity_resized for_upto_4 store_def vec_write_def load_def
        vec_read_def Mat4_inv_def)
  show "\<exists>m. sub a b = Some m \<and> Mat4_inv m"
    by (simp add: a b sub_def setIdentity_resized for_upto_4 store_def vec_write_def load_def
        vec_read_def Mat4_inv_def)
  show "\<exists>m. hadamard a b = Some m \<and> Mat4_inv m"
    by (simp add: a b hadamard_def setIdentity_resized for_upto_4 store_def vec_write_def load_def
        vec_read_def Mat4_inv_def)
  show "\<exists>m. mul_scalar a c = Some m \<and> Mat4_inv m"
    by (simp add: a mul_scalar_def setIdentity_resized for_upto_4 store_def vec_write_def load_def
        vec_read_def Mat4_inv_def)
qed

lemma transpose_inv: "Mat4_inv a \<Longrightarrow> \<exists>m. transpose_mat a = Some m \<and> Mat4_inv m"
  by (erule Mat4_inv_cases) (simp add: transpose_explicit Mat4_inv_def)

lemma mul_inv:
  fixes a b :: "'a::{zero,one,plus,times} Mat4"
  shows "Mat4_inv a \<Longrightarrow> Mat4_inv b \<Longrightarrow> \<exists>m. mul a b = Some m \<and> Mat4_inv m"
  by (erule Mat4_inv_cases, erule Mat4_inv_cases) (simp add: mul_explicit Mat4_inv_def)

lemma setUniform_inv:
  "Mat4_inv f \<Longrightarrow> \<exists>m g'. setUniform RAND_MAX low high (f, g) = Some (m, g') \<and> Mat4_inv m"
  by (erule Mat4_inv_cases) (simp add: setUniform_explicit Mat4_inv_def)

lemma readers_total:
  fixes a :: "'a::{plus,times} Mat4"
  assumes "Mat4_inv a"
  shows "\<exists>w. mul_vec a v = Some w" "\<exists>t. getTranslationVec3 a = Some t"
  using assms
  by (cases v; simp add: mul_vec_def getTranslationVec3_def load_def vec_read_def Mat4_inv_def)+

lemma dump_total:
  assumes "Mat4_inv a" "16 \<le> length array"
  shows "\<exists>out. dumpColumnWise a array = Some out \<and> length out = length array"
  using assms
  by (elim Mat4_inv_cases at_least_16) (simp add: dump_explicit)

text \<open>
  C9. Every constructor returns a well-formed matrix: 16 elements, 4 rows, 4 columns.
  Given well-formed operands, indices in \<open>[0,4)\<close> and a buffer of at least 16 slots, every
  operation returns a result (none reads or writes outside a vector), and every matrix it
  returns is well formed again: copy and assignment return the very matrix copied, the
  mutators, \<open>set\<close> and the operators a matrix of 16 elements; the dump keeps the length
  of the buffer.
\<close>

theorem Mat4_invariant:
  fixes a b :: "'a::{zero,one,plus,minus,times} Mat4" and f :: "fp Mat4"
  assumes "Mat4_inv a" "Mat4_inv b" "Mat4_inv f"
  shows "(\<exists>m. Mat4_init init = Some (m :: 'a Mat4) \<and> Mat4_inv m) \<and>
         (\<exists>m. Mat4_rotation cos_d sin_d angle = Some m \<and> Mat4_inv m) \<and>
         (\<exists>m. Mat4_translation t = Some (m :: 'a Mat4) \<and> Mat4_inv m) \<and>
         (\<exists>m. Mat4_scale sx sy sz = Some (m :: 'a Mat4) \<and> Mat4_inv m) \<and>
         Mat4_copy a = Some a \<and> assign a b = Some b \<and>
         (\<forall>i j. 0 \<le> i \<and> i < 4 \<and> 0 \<le> j \<and> j < 4 \<longrightarrow>
            (\<exists>v. get a i j = Some v) \<and> (\<exists>m. set_mat a i j k = Some m \<and> Mat4_inv m)) \<and>
         (\<exists>m. setZeros a = Some m \<and> Mat4_inv m) \<and>
         (\<exists>m. setOnes a = Some m \<and> Mat4_inv m) \<and>
         (\<exists>m. setIdentity a = Some m \<and> Mat4_inv m) \<and>
         (\<exists>m g'. setUniform RAND_MAX low high (f, g) = Some (m, g') \<and> Mat4_inv m) \<and>
         (\<exists>m. transpose_mat a = Some m \<and> Mat4_inv m) \<and>
         (\<exists>m. add a b = Some m \<and> Mat4_inv m) \<and>
         (\<exists>m. sub a b = Some m \<and> Mat4_inv m) \<and>
         (\<exists>m. mul a b = Some m \<and> Mat4_inv m) \<and>
         (\<exists>w. mul_vec a v = Some w) \<and>
         (\<exists>m. mul_scalar a c = Some m \<and> Mat4_inv m) \<and>
         (\<exists>m. hadamard a b = Some m \<and> Mat4_inv m) \<and>
         (\<forall>array. 16 \<le> length array \<longrightarrow>
            (\<exists>out. dumpColumnWise a array = Some out \<and> length out = length array)) \<and>
         (\<exists>t. getTranslationVec3 a = Some t)"
proof -
  have access: "(\<exists>v. get a i j = Some v) \<and> (\<exists>m. set_mat a i j k = Some m \<and> Mat4_inv m)"
    if "0 \<le> i \<and> i < 4 \<and> 0 \<le> j \<and> j < 4" for i j
  proof -
    from that have "0 \<le> i * 4 + j" "i * 4 + j < 16" by linarith+
    with assms(1) show ?thesis
      by (simp add: get_def set_mat_def load_def store_def vec_read_def vec_write_def Mat4_inv_def)
  qed
  note parts = Mat4_init_inv [of init] Mat4_rotation_inv [of cos_d sin_d angle]
    Mat4_translation_inv [of t] Mat4_scale_inv [of sx sy sz]
    Mat4_copy_copies [OF assms(1)] assign_copies [OF assms(1,2)]
    setters_inv [OF assms(1)] setUniform_inv [OF assms(3), of RAND_MAX low high g]
    transpose_inv [OF assms(1)] elementwise_inv [OF assms(1,2)] mul_inv [OF assms(1,2)]
    readers_total [OF assms(1)] dump_total [OF assms(1)]
  show ?thesis
    using access parts by (intro conjI allI impI) blast+
qed

theorem Mat4_invariant_witness:
  "(\<exists>m. add \<lparr>values = [1, 2, 3, 4, 5, 6, 7, 8, 9, 10, 11, 12, 13, 14, 15, 16 :: int], nR = 4, nC = 4\<rparr>
           \<lparr>values = [2, 0, 0, 1, 0, 2, 0, 0, 0, 0, 2, 0, 0, 0, 0, 2], nR = 4, nC = 4\<rparr> = Some m \<and>
        Mat4_inv m) \<and>
   (\<exists>v. get \<lparr>values = [1, 2, 3, 4, 5, 6, 7, 8, 9, 10, 11, 12, 13, 14, 15, 16 :: int], nR = 4, nC = 4\<rparr>
          3 3 = Some v) \<and>
   (\<exists>out. dumpColumnWise
            \<lparr>values = [1, 2, 3, 4, 5, 6, 7, 8, 9, 10, 11, 12, 13, 14, 15, 16 :: int], nR = 4, nC = 4\<rparr>
            (replicate 16 0) = Some out \<and> length out = 16) \<and>
   (\<exists>m g'. setUniform 32767 0 1
              (\<lparr>values = [1, 0, 0, 0, 0, 1, 0, 0, 0, 0, 1, 0, 0, 0, 0, 1], nR = 4, nC = 4\<rparr>,
               constant_rand 7) = Some (m, g') \<and> Mat4_inv m)"
proof -
  let ?a = "\<lparr>values = [1, 2, 3, 4, 5, 6, 7, 8, 9, 10, 11, 12, 13, 14, 15, 16 :: int], nR = 4, nC = 4\<rparr>"
  let ?b = "\<lparr>values = [2, 0, 0, 1, 0, 2, 0, 0, 0, 0, 2, 0, 0, 0, 0, 2 :: int], nR = 4, nC = 4\<rparr>"
  let ?f = "\<lparr>values = [1, 0, 0, 0, 0, 1, 0, 0, 0, 0, 1, 0, 0, 0, 0, 1 :: fp], nR = 4, nC = 4\<rparr>"
  have inv: "Mat4_inv ?a" "Mat4_inv ?b" "Mat4_inv ?f" by (simp_all add: Mat4_inv_def)
  note all = Mat4_invariant [OF inv, where RAND_MAX = 32767 and low = 0 and high = 1
      and g = "constant_rand 7"]
  have 1: "\<exists>m. add ?a ?b = Some m \<and> Mat4_inv m" using all by blast
  have "\<forall>i j. 0 \<le> i \<and> i < 4 \<and> 0 \<le> j \<and> j < 4 \<longrightarrow> (\<exists>v. get ?a i j = Some v)"
    using all by blast
  then have 2: "\<exists>v. get ?a 3 3 = Some v" by simp
  have "\<forall>array. 16 \<le> length array \<longrightarrow>
          (\<exists>out. dumpColumnWise ?a array = Some out \<and> length out = length array)"
    using all by blast
  from this [rule_format, of "replicate 16 0"]
  have 3: "\<exists>out. dumpColumnWise ?a (replicate 16 0) = Some out \<and> length out = 16" by simp
  have 4: "\<exists>m g'. setUniform 32767 0 1 (?f, constant_rand 7) = Some (m, g') \<and> Mat4_inv m"
    using all by blast
  from 1 2 3 4 show ?thesis by blast
qed

end
